theory Spec2Isabelle
  imports Main
begin


section \<open>Identifiers, sentinels and errors\<close>

text \<open>
  \<open>GateId\<close> and \<open>ColorId\<close> are \<open>size_t\<close> in the source. They are modelled as natural
  numbers; the only arithmetic the source does on them is \<open>next_color_id_++\<close>, whose value
  is the size of the \<open>colors\<close> vector and so cannot reach \<open>2^64\<close>. The sentinel \<open>SIZE_MAX\<close>
  is the largest 64-bit value.
\<close>

type_synonym GateId = nat
type_synonym ColorId = nat
type_synonym GateIdContainer = "GateId list"

definition SIZE_MAX :: nat where
  "SIZE_MAX = 2 ^ 64 - 1"

text \<open>
  Modelled from the spec: the enumeration \<open>GateType\<close> of \<open>src/common/csat_types.hpp\<close>,
  which is not among the source files; the spec lists its members.
\<close>

datatype GateType =
  INPUT | NOT | AND | OR | NAND | NOR | XOR | XNOR | BUFF | IFF | MUX | CONST_FALSE | CONST_TRUE

text \<open>
  The ways the constructor of \<open>ThreeColoring\<close> can stop early: \<open>std::exit(-1)\<close> after the
  message naming a gate with more than two operands, and \<open>std::out_of_range\<close> thrown by
  \<open>at()\<close> on one of the five vectors it indexes. \<open>SelfIteration\<close> stands for the one
  undefined behaviour of the source: a unary gate that is its own operand makes the
  range-for loop push to the vector it iterates.
\<close>

datatype container = Colors | GateColors | NegationUsers | TwoColoringGateColor | TwoColoringColors

datatype error = NonBinaryGate GateId | OutOfRange container | SelfIteration

definition bindE :: "error + 'a \<Rightarrow> ('a \<Rightarrow> error + 'b) \<Rightarrow> error + 'b" where
  "bindE m f = (case m of Inl e \<Rightarrow> Inl e | Inr x \<Rightarrow> f x)"

definition vec_at :: "'a list \<Rightarrow> nat \<Rightarrow> container \<Rightarrow> error + 'a" where
  "vec_at xs i w = (if i < length xs then Inr (xs ! i) else Inl (OutOfRange w))"

section \<open>The circuit and its two-coloring\<close>

text \<open>
  \<open>ICircuit\<close> is an interface of the repository; the constructor uses three of its
  methods, which are the fields of the record. The topological order
  (\<open>TopSortAlgorithm<DFSTopSort>::sorting\<close>) and the \<open>TwoColoring\<close> are computed by
  code outside the source files, so the constructor's model takes them as arguments.
\<close>

record ICircuit =
  getNumberOfGates :: nat
  getGateOperands :: "GateId \<Rightarrow> GateIdContainer"
  getGateType :: "GateId \<Rightarrow> GateType"

text \<open>
  Modelled from the spec: \<open>TwoColor\<close> and \<open>TwoColoring\<close> of
  \<open>src/simplification/utils/two_coloring.hpp\<close>, which is not among the source files.
  A \<open>TwoColor\<close> is a pair of parents; the \<open>TwoColoring\<close> is a table of them and a
  per-gate \<open>ColorId\<close> with \<open>SIZE_MAX\<close> for "no color". \<open>TwoColor_hasParent\<close> is
  "the pair contains the gate", as \<open>ThreeColor::hasParent\<close> is for triples.
\<close>

record TwoColor =
  first_parent :: GateId
  second_parent :: GateId

record TwoColoring =
  colors :: "TwoColor list"
  gateColor :: "ColorId list"

definition TwoColor_hasParent :: "TwoColor \<Rightarrow> GateId \<Rightarrow> bool" where
  "TwoColor_hasParent c gateId \<longleftrightarrow>
     TwoColor.first_parent c = gateId \<or> TwoColor.second_parent c = gateId"

section \<open>ThreeColor\<close>

text \<open>
  The members \<open>gates_\<close> and \<open>next_color_id_\<close> of the source lose their trailing
  underscore, which an Isabelle name cannot end with.
\<close>

record ThreeColor =
  first_parent :: GateId
  second_parent :: GateId
  third_parent :: GateId
  gates :: GateIdContainer

definition sortedParents :: "GateId \<Rightarrow> GateId \<Rightarrow> GateId \<Rightarrow> GateIdContainer" where
  "sortedParents parent_one parent_two parent_three = sort [parent_one, parent_two, parent_three]"

definition ThreeColor :: "GateId \<Rightarrow> GateId \<Rightarrow> GateId \<Rightarrow> ThreeColor" where
  "ThreeColor parent_one parent_two parent_three =
     (let parents = sortedParents parent_one parent_two parent_three
      in \<lparr> first_parent = parents ! 0, second_parent = parents ! 1,
           third_parent = parents ! 2, gates = [] \<rparr>)"

definition addGate :: "GateId \<Rightarrow> ThreeColor \<Rightarrow> ThreeColor" where
  "addGate gateId c = c\<lparr> gates := gates c @ [gateId] \<rparr>"

definition getParents :: "ThreeColor \<Rightarrow> GateIdContainer" where
  "getParents c = [first_parent c, second_parent c, third_parent c]"

definition hasParent :: "ThreeColor \<Rightarrow> GateId \<Rightarrow> bool" where
  "hasParent c gateId \<longleftrightarrow>
     first_parent c = gateId \<or> second_parent c = gateId \<or> third_parent c = gateId"

section \<open>ThreeColoring\<close>

record ThreeColoring =
  colors :: "ThreeColor list"
  gateColors :: "ColorId list list"
  parentsToColor :: "GateId list \<rightharpoonup> ColorId"
  negationUsers :: GateIdContainer
  next_color_id :: ColorId

definition addColor :: "GateId \<Rightarrow> GateId \<Rightarrow> GateId \<Rightarrow> ThreeColoring \<Rightarrow> ColorId \<times> ThreeColoring" where
  "addColor first_p second_p third_p st =
     (next_color_id st,
      st\<lparr> colors := colors st @ [ThreeColor first_p second_p third_p],
          parentsToColor := (parentsToColor st)(sortedParents first_p second_p third_p \<mapsto> next_color_id st),
          next_color_id := next_color_id st + 1 \<rparr>)"

definition paintGate :: "GateId \<Rightarrow> ColorId \<Rightarrow> ThreeColoring \<Rightarrow> error + ThreeColoring" where
  "paintGate gateId colorId st =
     (if colorId < length (colors st) then
        (if gateId < length (gateColors st) then
           Inr (st\<lparr> colors := (colors st)[colorId := addGate gateId (colors st ! colorId)],
                    gateColors := (gateColors st)[gateId := gateColors st ! gateId @ [colorId]] \<rparr>)
         else Inl (OutOfRange GateColors))
      else Inl (OutOfRange Colors))"

text \<open>\<open>std::map::operator[]\<close>: a missing key is inserted with the value 0.\<close>

definition map_index :: "('k \<rightharpoonup> ColorId) \<Rightarrow> 'k \<Rightarrow> ColorId \<times> ('k \<rightharpoonup> ColorId)" where
  "map_index m k = (case m k of Some v \<Rightarrow> (v, m) | None \<Rightarrow> (0, m(k \<mapsto> 0)))"

text \<open>
  The source repeats one block seven times: look the sorted triple up, \<open>addColor\<close> it when
  \<open>find\<close> returns \<open>end()\<close>, then \<open>paintGate(gateId, parentsToColor[color_parents])\<close>.
\<close>

definition paintParents :: "GateId \<Rightarrow> GateIdContainer \<Rightarrow> ThreeColoring \<Rightarrow> error + ThreeColoring" where
  "paintParents gateId color_parents st =
     (let st1 = (if parentsToColor st color_parents = None
                 then snd (addColor (color_parents ! 0) (color_parents ! 1) (color_parents ! 2) st)
                 else st);
          r = map_index (parentsToColor st1) color_parents
      in paintGate gateId (fst r) (st1\<lparr> parentsToColor := snd r \<rparr>))"

text \<open>
  The nested loops that collect \<open>common_colors\<close>, \<open>color_type_13\<close> and \<open>color_type_31\<close>.
  The inner loop runs over the colors of \<open>child_2\<close> for one color of \<open>child_1\<close>;
  \<open>gateColors.at(child_2)\<close> is evaluated once per iteration of the outer loop.
\<close>

fun scanSecondChild ::
  "ThreeColor list \<Rightarrow> GateId \<Rightarrow> ColorId \<Rightarrow> ColorId list \<Rightarrow> ColorId list \<times> ColorId
     \<Rightarrow> error + (ColorId list \<times> ColorId)" where
  "scanSecondChild cols child_1 first_child_color [] acc = Inr acc"
| "scanSecondChild cols child_1 first_child_color (second_child_color # rest) (common_colors, color_type_13) =
     (if first_child_color = second_child_color
      then scanSecondChild cols child_1 first_child_color rest
             (common_colors @ [first_child_color], color_type_13)
      else bindE (vec_at cols second_child_color Colors) (\<lambda>col.
             scanSecondChild cols child_1 first_child_color rest
               (common_colors, if hasParent col child_1 then second_child_color else color_type_13)))"

fun scanFirstChild ::
  "ThreeColor list \<Rightarrow> ColorId list list \<Rightarrow> GateId \<Rightarrow> GateId \<Rightarrow> ColorId list
     \<Rightarrow> ColorId list \<times> ColorId \<times> ColorId \<Rightarrow> error + (ColorId list \<times> ColorId \<times> ColorId)" where
  "scanFirstChild cols gcs child_1 child_2 [] acc = Inr acc"
| "scanFirstChild cols gcs child_1 child_2 (first_child_color # rest) (common_colors, color_type_13, color_type_31) =
     bindE (vec_at gcs child_2 GateColors) (\<lambda>second_colors.
     bindE (scanSecondChild cols child_1 first_child_color second_colors (common_colors, color_type_13)) (\<lambda>r.
     bindE (vec_at cols first_child_color Colors) (\<lambda>col.
       scanFirstChild cols gcs child_1 child_2 rest
         (fst r, snd r, if hasParent col child_2 then first_child_color else color_type_31))))"

text \<open>
  The loop with \<open>break\<close> that looks, among the colors of one child, for the first color
  whose triple has both parents of the other child's TwoColor; \<open>SIZE_MAX\<close> when none has.
\<close>

fun findColorWithParents :: "ThreeColor list \<Rightarrow> GateId \<Rightarrow> GateId \<Rightarrow> ColorId list \<Rightarrow> error + ColorId" where
  "findColorWithParents cols parent_1 parent_2 [] = Inr SIZE_MAX"
| "findColorWithParents cols parent_1 parent_2 (c # rest) =
     bindE (vec_at cols c Colors) (\<lambda>col.
       if hasParent col parent_1 \<and> hasParent col parent_2 then Inr c
       else findColorWithParents cols parent_1 parent_2 rest)"


section \<open>The constructor's loop body\<close>

text \<open>Lines 210 to 245: a 3-1 pattern was found; a second color may be added.\<close>

definition paintType13 ::
  "TwoColoring \<Rightarrow> GateId \<Rightarrow> GateId \<Rightarrow> GateId \<Rightarrow> ColorId \<Rightarrow> ThreeColoring \<Rightarrow> error + ThreeColoring" where
  "paintType13 twoColoring gateId child_1 child_2 color_type_13 st =
     bindE (paintGate gateId color_type_13 st) (\<lambda>st1.
     bindE (vec_at (gateColor twoColoring) child_1 TwoColoringGateColor) (\<lambda>first_child_two_color.
       if first_child_two_color \<noteq> SIZE_MAX then
         bindE (vec_at (TwoColoring.colors twoColoring) first_child_two_color TwoColoringColors) (\<lambda>tc.
         bindE (vec_at (gateColors st1) child_2 GateColors) (\<lambda>second_colors.
         bindE (findColorWithParents (colors st1) (TwoColor.first_parent tc) (TwoColor.second_parent tc)
                  second_colors) (\<lambda>color_type_23.
           if color_type_23 \<noteq> SIZE_MAX then paintGate gateId color_type_23 st1
           else paintParents gateId
                  (sortedParents (TwoColor.first_parent tc) (TwoColor.second_parent tc) child_2) st1)))
       else Inr st1))"

text \<open>Lines 247 to 282: the symmetric 1-3 pattern.\<close>

definition paintType31 ::
  "TwoColoring \<Rightarrow> GateId \<Rightarrow> GateId \<Rightarrow> GateId \<Rightarrow> ColorId \<Rightarrow> ThreeColoring \<Rightarrow> error + ThreeColoring" where
  "paintType31 twoColoring gateId child_1 child_2 color_type_31 st =
     bindE (paintGate gateId color_type_31 st) (\<lambda>st1.
     bindE (vec_at (gateColor twoColoring) child_2 TwoColoringGateColor) (\<lambda>second_child_two_color.
       if second_child_two_color \<noteq> SIZE_MAX then
         bindE (vec_at (TwoColoring.colors twoColoring) second_child_two_color TwoColoringColors) (\<lambda>tc.
         bindE (vec_at (gateColors st1) child_1 GateColors) (\<lambda>first_colors.
         bindE (findColorWithParents (colors st1) (TwoColor.first_parent tc) (TwoColor.second_parent tc)
                  first_colors) (\<lambda>color_type_32.
           if color_type_32 \<noteq> SIZE_MAX then paintGate gateId color_type_32 st1
           else paintParents gateId
                  (sortedParents (TwoColor.first_parent tc) (TwoColor.second_parent tc) child_1) st1)))
       else Inr st1))"

text \<open>Lines 330 to 372: the 2-2 pattern, both children have a TwoColor.\<close>

definition paintType22 ::
  "TwoColoring \<Rightarrow> GateId \<Rightarrow> GateId \<Rightarrow> GateId \<Rightarrow> ColorId \<Rightarrow> ColorId \<Rightarrow> ThreeColoring
     \<Rightarrow> error + ThreeColoring" where
  "paintType22 twoColoring gateId child_1 child_2 first_child_two_color second_child_two_color st =
     bindE (vec_at (TwoColoring.colors twoColoring) first_child_two_color TwoColoringColors) (\<lambda>tc1.
     bindE (vec_at (TwoColoring.colors twoColoring) second_child_two_color TwoColoringColors) (\<lambda>tc2.
       let parent_1 = TwoColor.first_parent tc1; parent_2 = TwoColor.second_parent tc1;
           parent_3 = TwoColor.first_parent tc2; parent_4 = TwoColor.second_parent tc2
       in if TwoColor_hasParent tc2 parent_1
          then paintParents gateId (sortedParents parent_2 parent_3 parent_4) st
          else if TwoColor_hasParent tc2 parent_2
          then paintParents gateId (sortedParents parent_1 parent_3 parent_4) st
          else bindE (paintParents gateId (sortedParents parent_1 parent_2 child_2) st)
                 (paintParents gateId (sortedParents parent_3 parent_4 child_1))))"

text \<open>Lines 374 to 392: only one child has a TwoColor.\<close>

definition paintFallback ::
  "TwoColoring \<Rightarrow> GateId \<Rightarrow> GateId \<Rightarrow> GateId \<Rightarrow> ColorId \<Rightarrow> ColorId \<Rightarrow> ThreeColoring
     \<Rightarrow> error + ThreeColoring" where
  "paintFallback twoColoring gateId child_1 child_2 first_child_two_color second_child_two_color st =
     (if first_child_two_color \<noteq> SIZE_MAX then
        bindE (vec_at (TwoColoring.colors twoColoring) first_child_two_color TwoColoringColors) (\<lambda>tc.
          paintParents gateId
            (sortedParents (TwoColor.first_parent tc) (TwoColor.second_parent tc) child_2) st)
      else
        bindE (vec_at (TwoColoring.colors twoColoring) second_child_two_color TwoColoringColors) (\<lambda>tc.
          paintParents gateId
            (sortedParents (TwoColor.first_parent tc) (TwoColor.second_parent tc) child_1) st))"

text \<open>
  Lines 284 to 392: no common color and no 3-1 or 1-3 pattern. A single 3-2 pattern is
  looked for first, then a single 2-3 pattern, then the 2-2 pattern, then the fallback.
\<close>

definition paintSingle ::
  "TwoColoring \<Rightarrow> GateId \<Rightarrow> GateId \<Rightarrow> GateId \<Rightarrow> ThreeColoring \<Rightarrow> error + ThreeColoring" where
  "paintSingle twoColoring gateId child_1 child_2 st =
     bindE (vec_at (gateColor twoColoring) child_1 TwoColoringGateColor) (\<lambda>first_child_two_color.
     bindE (vec_at (gateColor twoColoring) child_2 TwoColoringGateColor) (\<lambda>second_child_two_color.
     bindE (if second_child_two_color \<noteq> SIZE_MAX then
              bindE (vec_at (TwoColoring.colors twoColoring) second_child_two_color TwoColoringColors) (\<lambda>tc.
              bindE (vec_at (gateColors st) child_1 GateColors) (\<lambda>first_colors.
                findColorWithParents (colors st) (TwoColor.first_parent tc) (TwoColor.second_parent tc)
                  first_colors))
            else Inr SIZE_MAX) (\<lambda>color_type_32.
       if color_type_32 \<noteq> SIZE_MAX then paintGate gateId color_type_32 st
       else
     bindE (if first_child_two_color \<noteq> SIZE_MAX then
              bindE (vec_at (TwoColoring.colors twoColoring) first_child_two_color TwoColoringColors) (\<lambda>tc.
              bindE (vec_at (gateColors st) child_2 GateColors) (\<lambda>second_colors.
                findColorWithParents (colors st) (TwoColor.first_parent tc) (TwoColor.second_parent tc)
                  second_colors))
            else Inr SIZE_MAX) (\<lambda>color_type_23.
       if color_type_23 \<noteq> SIZE_MAX then paintGate gateId color_type_23 st
       else if first_child_two_color \<noteq> SIZE_MAX \<and> second_child_two_color \<noteq> SIZE_MAX
       then paintType22 twoColoring gateId child_1 child_2 first_child_two_color second_child_two_color st
       else paintFallback twoColoring gateId child_1 child_2 first_child_two_color
              second_child_two_color st))))"

text \<open>
  Lines 165 to 392: the children of the gate's TwoColor are known and at least one of
  them has a TwoColor of its own.
\<close>

definition paintBinary ::
  "TwoColoring \<Rightarrow> GateId \<Rightarrow> GateId \<Rightarrow> GateId \<Rightarrow> ThreeColoring \<Rightarrow> error + ThreeColoring" where
  "paintBinary twoColoring gateId child_1 child_2 st =
     bindE (vec_at (gateColors st) child_1 GateColors) (\<lambda>first_colors.
     bindE (scanFirstChild (colors st) (gateColors st) child_1 child_2 first_colors
              ([], SIZE_MAX, SIZE_MAX)) (\<lambda>r.
       let common_colors = fst r; color_type_13 = fst (snd r); color_type_31 = snd (snd r)
       in if length common_colors = 2 then
            bindE (paintGate gateId (common_colors ! 0) st) (paintGate gateId (common_colors ! 1))
          else if length common_colors = 1 then
            bindE (paintGate gateId (common_colors ! 0) st) (\<lambda>st1.
              if color_type_13 \<noteq> SIZE_MAX then paintGate gateId color_type_13 st1
              else if color_type_31 \<noteq> SIZE_MAX then paintGate gateId color_type_31 st1
              else Inr st1)
          else if color_type_13 \<noteq> SIZE_MAX then
            paintType13 twoColoring gateId child_1 child_2 color_type_13 st
          else if color_type_31 \<noteq> SIZE_MAX then
            paintType31 twoColoring gateId child_1 child_2 color_type_31 st
          else paintSingle twoColoring gateId child_1 child_2 st))"

text \<open>
  Lines 149 to 163: the gate's own TwoColor and the test that skips a gate whose two
  TwoColor parents both have no TwoColor. The \<open>&&\<close> of the source reads the entry of
  \<open>child_2\<close> only when the entry of \<open>child_1\<close> is \<open>SIZE_MAX\<close>.
\<close>

definition processBinary :: "TwoColoring \<Rightarrow> GateId \<Rightarrow> ThreeColoring \<Rightarrow> error + ThreeColoring" where
  "processBinary twoColoring gateId st =
     bindE (vec_at (gateColor twoColoring) gateId TwoColoringGateColor) (\<lambda>two_color.
       if two_color = SIZE_MAX then Inr st
       else
     bindE (vec_at (TwoColoring.colors twoColoring) two_color TwoColoringColors) (\<lambda>tc.
       let child_1 = TwoColor.first_parent tc; child_2 = TwoColor.second_parent tc
       in
     bindE (vec_at (gateColor twoColoring) child_1 TwoColoringGateColor) (\<lambda>c1.
     bindE (if c1 = SIZE_MAX
            then bindE (vec_at (gateColor twoColoring) child_2 TwoColoringGateColor)
                   (\<lambda>c2. Inr (c2 = SIZE_MAX))
            else Inr False) (\<lambda>both_uncolored.
       if both_uncolored then Inr st
       else paintBinary twoColoring gateId child_1 child_2 st))))"

text \<open>Lines 126 to 139: a unary gate inherits the colors of its operand.\<close>

fun paintAll :: "GateId \<Rightarrow> ColorId list \<Rightarrow> ThreeColoring \<Rightarrow> error + ThreeColoring" where
  "paintAll gateId [] st = Inr st"
| "paintAll gateId (color # rest) st = bindE (paintGate gateId color st) (paintAll gateId rest)"

definition processUnary :: "ICircuit \<Rightarrow> GateId \<Rightarrow> GateId \<Rightarrow> ThreeColoring \<Rightarrow> error + ThreeColoring" where
  "processUnary circuit gateId operand st =
     bindE (vec_at (gateColors st) operand GateColors) (\<lambda>operand_colors.
       if operand = gateId \<and> operand_colors \<noteq> [] then Inl SelfIteration
       else
     bindE (paintAll gateId operand_colors st) (\<lambda>st1.
       if getGateType circuit gateId = NOT then
         (if operand < length (negationUsers st1)
          then Inr (st1\<lparr> negationUsers := (negationUsers st1)[operand := gateId] \<rparr>)
          else Inl (OutOfRange NegationUsers))
       else Inr st1))"

text \<open>The body of the loop over the gates, lines 119 to 392.\<close>

definition processGate :: "ICircuit \<Rightarrow> TwoColoring \<Rightarrow> GateId \<Rightarrow> ThreeColoring \<Rightarrow> error + ThreeColoring" where
  "processGate circuit twoColoring gateId st =
     (let operands = getGateOperands circuit gateId
      in if operands = [] then Inr st
         else if length operands = 1 then processUnary circuit gateId (operands ! 0) st
         else if length operands > 2 then Inl (NonBinaryGate gateId)
         else processBinary twoColoring gateId st)"

fun processGates :: "ICircuit \<Rightarrow> TwoColoring \<Rightarrow> GateId list \<Rightarrow> ThreeColoring \<Rightarrow> error + ThreeColoring" where
  "processGates circuit twoColoring [] st = Inr st"
| "processGates circuit twoColoring (gateId # rest) st =
     bindE (processGate circuit twoColoring gateId st) (processGates circuit twoColoring rest)"

text \<open>
  The constructor: both per-gate tables are resized to the number of gates, then the
  gates are visited in the reverse of the order given by the sort.
\<close>

definition initialColoring :: "nat \<Rightarrow> ThreeColoring" where
  "initialColoring circuit_size =
     \<lparr> colors = [], gateColors = replicate circuit_size [], parentsToColor = Map.empty,
       negationUsers = replicate circuit_size SIZE_MAX, next_color_id = 0 \<rparr>"

definition ThreeColoring :: "ICircuit \<Rightarrow> GateIdContainer \<Rightarrow> TwoColoring \<Rightarrow> error + ThreeColoring" where
  "ThreeColoring circuit gate_sorting twoColoring =
     processGates circuit twoColoring (rev gate_sorting) (initialColoring (getNumberOfGates circuit))"

section \<open>The database file as a stream of tokens\<close>

text \<open>
  \<open>read_db\<close> reads the file through a \<open>std::ifstream\<close> with \<open>operator>>\<close>, which
  skips whitespace and extracts one value. The model takes the file as the list of its
  whitespace-separated tokens. A stream is \<open>Some\<close> of the tokens not yet read, or
  \<open>None\<close> once an extraction has failed: every later extraction then leaves its variable
  as it was, as the standard streams do. An extraction at the end of the tokens fails
  without touching the variable; a token that is not a numeral makes a numeric extraction
  fail and store 0; a numeral out of range fails and stores the nearest bound.

  A numeral is a string of decimal digits, for \<open>int32_t\<close> with an optional leading
  minus sign. Tokens such as \<open>12abc\<close> or \<open>+5\<close>, which the library would split or
  accept, count as not numerals. The theorems below assume the numerals they need and the
  examples use plain numerals, so nothing depends on this choice. The memory a vector needs
  is not modelled. A file that cannot be opened is a stream that has failed from the start.
\<close>

type_synonym stream = "string list option"

text \<open>What one extraction from one token gives: the value stored and whether it succeeded.\<close>

datatype 'a extracted = Good 'a | Bad 'a

definition digit_of_char :: "char \<Rightarrow> nat option" where
  "digit_of_char =
     map_of [(CHR ''0'', 0), (CHR ''1'', 1), (CHR ''2'', 2), (CHR ''3'', 3), (CHR ''4'', 4),
             (CHR ''5'', 5), (CHR ''6'', 6), (CHR ''7'', 7), (CHR ''8'', 8), (CHR ''9'', 9)]"

definition is_numeral :: "string \<Rightarrow> bool" where
  "is_numeral t \<longleftrightarrow> t \<noteq> [] \<and> list_all (\<lambda>c. digit_of_char c \<noteq> None) t"

definition nat_of_numeral :: "string \<Rightarrow> nat" where
  "nat_of_numeral t = foldl (\<lambda>n c. 10 * n + the (digit_of_char c)) 0 t"

definition size_t_of_token :: "string \<Rightarrow> nat extracted" where
  "size_t_of_token t =
     (if is_numeral t
      then (if nat_of_numeral t \<le> SIZE_MAX then Good (nat_of_numeral t) else Bad SIZE_MAX)
      else Bad 0)"

definition int32_of_token :: "string \<Rightarrow> int extracted" where
  "int32_of_token t =
     (if t \<noteq> [] \<and> hd t = CHR ''-'' then
        (if is_numeral (tl t)
         then (if nat_of_numeral (tl t) \<le> 2 ^ 31 then Good (- int (nat_of_numeral (tl t)))
               else Bad (- (2 ^ 31)))
         else Bad 0)
      else
        (if is_numeral t
         then (if nat_of_numeral t \<le> 2 ^ 31 - 1 then Good (int (nat_of_numeral t))
               else Bad (2 ^ 31 - 1))
         else Bad 0))"

fun stream_extract :: "(string \<Rightarrow> 'a extracted) \<Rightarrow> 'a \<Rightarrow> stream \<Rightarrow> 'a \<times> stream" where
  "stream_extract parse v None = (v, None)"
| "stream_extract parse v (Some []) = (v, None)"
| "stream_extract parse v (Some (t # ts)) =
     (case parse t of Good x \<Rightarrow> (x, Some ts) | Bad x \<Rightarrow> (x, None))"

definition read_size_t :: "nat \<Rightarrow> stream \<Rightarrow> nat \<times> stream" where
  "read_size_t = stream_extract size_t_of_token"

definition read_int32 :: "int \<Rightarrow> stream \<Rightarrow> int \<times> stream" where
  "read_int32 = stream_extract int32_of_token"

definition read_string :: "string \<Rightarrow> stream \<Rightarrow> string \<times> stream" where
  "read_string = stream_extract Good"

text \<open>
  The loops \<open>for (i = 0; i < outputs_number; ++i) database >> v[i]\<close> over a vector whose
  elements start as \<open>v\<close>.
\<close>

fun read_vector :: "('a \<Rightarrow> stream \<Rightarrow> 'a \<times> stream) \<Rightarrow> 'a \<Rightarrow> nat \<Rightarrow> stream \<Rightarrow> 'a list \<times> stream" where
  "read_vector rd v 0 s = ([], s)"
| "read_vector rd v (Suc k) s =
     (let r = rd v s; rest = read_vector rd v k (snd r) in (fst r # fst rest, snd rest))"

section \<open>CircuitDB\<close>

text \<open>
  The truth tables, \<open>subcircuit_index\<close> and the entries of \<open>OPER_number\<close> are
  \<open>int32_t\<close> in the source. The truth tables are read within the range of the type;
  the other two count records and gates and are modelled as unbounded integers.
\<close>

record CircuitDB =
  subcircuit_pattern_to_index :: "int list \<rightharpoonup> int"
  subcircuit_outputs :: "GateIdContainer list"
  gates_operands :: "GateIdContainer list list"
  OPER_number :: "int list"
  gates_operations :: "GateType list list"

text \<open>
  \<open>csat::utils::stringToGateType\<close> (\<open>src/utility/converters.hpp\<close>) is not among the
  source files: the model takes it as an argument, \<open>None\<close> standing for a call that does
  not return. \<open>GateCounterWraps\<close> is the case of the gate loop in which \<open>++i\<close> wraps
  around at \<open>SIZE_MAX\<close>: then \<open>max_index\<close> is \<open>SIZE_MAX\<close> as well, the condition
  \<open>i <= max_index\<close> stays true for good, and \<open>read_db\<close> does not return.
\<close>

datatype read_error = UnsupportedOperator string | GateCounterWraps

text \<open>
  What the gate loop builds for the record being read: the entries of \<open>gates_operations\<close>,
  \<open>gates_operands\<close> and \<open>OPER_number\<close> at \<open>subcircuit_index\<close>, which is the last index of
  the three vectors since each record appends one entry to each.
\<close>

record parsed_gates =
  operations :: "GateType list"
  operands_of :: "GateIdContainer list"
  oper_count :: int

text \<open>One iteration of the gate loop, lines 105 to 127.\<close>

definition parse_gate ::
  "(string \<Rightarrow> GateType option) \<Rightarrow> stream \<Rightarrow> GateId \<Rightarrow> parsed_gates
     \<Rightarrow> read_error + (stream \<times> GateId \<times> parsed_gates)" where
  "parse_gate stringToGateType s max_index acc =
     (let r0 = read_string [] s; operation = fst r0
      in case stringToGateType operation of
           None \<Rightarrow> Inl (UnsupportedOperator operation)
         | Some gate_type \<Rightarrow>
             (let r1 = read_size_t 0 (snd r0); operand_1 = fst r1;
                  max_1 = max max_index operand_1
              in if operation \<noteq> ''NOT'' then
                   (let r2 = read_size_t 0 (snd r1); operand_2 = fst r2
                    in Inr (snd r2, max max_1 operand_2,
                            \<lparr> operations = operations acc @ [gate_type],
                              operands_of = operands_of acc @ [[operand_1, operand_2]],
                              oper_count = oper_count acc + 1 \<rparr>))
                 else Inr (snd r1, max_1,
                           \<lparr> operations = operations acc @ [gate_type],
                             operands_of = operands_of acc @ [[operand_1]],
                             oper_count = oper_count acc \<rparr>)))"

text \<open>
  The gate loop ends: an iteration on a good stream consumes a token, and on a failed
  stream it leaves \<open>max_index\<close> as it is while \<open>i\<close> grows.
\<close>

definition stream_size :: "stream \<Rightarrow> nat" where
  "stream_size s = (case s of None \<Rightarrow> 0 | Some ts \<Rightarrow> Suc (length ts))"

lemma extract_size: "stream_size (snd (stream_extract parse v s)) \<le> stream_size s"
  by (cases "(parse, v, s)" rule: stream_extract.cases) (auto simp: stream_size_def split: extracted.splits)

lemma extract_consumes: "s \<noteq> None \<Longrightarrow> stream_size (snd (stream_extract parse v s)) < stream_size s"
  by (cases "(parse, v, s)" rule: stream_extract.cases) (auto simp: stream_size_def split: extracted.splits)

lemma parse_gate_measure:
  assumes "parse_gate conv s m acc = Inr (s', m', acc')"
  shows "stream_size s' < stream_size s \<or> (stream_size s' = stream_size s \<and> m' = m)"
proof (cases "s = None")
  case True
  with assms show ?thesis
    by (auto simp: parse_gate_def read_string_def read_size_t_def Let_def
          split: option.splits if_splits)
next
  case False
  let ?s0 = "snd (read_string [] s)"
  have lt: "stream_size ?s0 < stream_size s"
    using False unfolding read_string_def by (rule extract_consumes)
  have le1: "stream_size (snd (read_size_t v x)) \<le> stream_size x" for v x
    unfolding read_size_t_def by (rule extract_size)
  have le2: "stream_size (snd (read_size_t v (snd (read_size_t w x)))) \<le> stream_size x" for v w x
    by (rule order_trans [OF le1 le1])
  from assms have "s' = snd (read_size_t 0 ?s0) \<or> s' = snd (read_size_t 0 (snd (read_size_t 0 ?s0)))"
    by (auto simp: parse_gate_def Let_def split: option.splits if_splits)
  then have "stream_size s' \<le> stream_size ?s0"
    using le1 [of 0 ?s0] le2 [of 0 0 ?s0] by auto
  with lt show ?thesis
    by simp
qed

text \<open>The gate loop, lines 103 to 128; \<open>max_index\<close> grows with the operands read.\<close>

function parse_gates ::
  "(string \<Rightarrow> GateType option) \<Rightarrow> stream \<Rightarrow> nat \<Rightarrow> GateId \<Rightarrow> parsed_gates
     \<Rightarrow> read_error + (stream \<times> parsed_gates)" where
  "parse_gates stringToGateType s i max_index acc =
     (if i \<le> max_index then
        (case parse_gate stringToGateType s max_index acc of
           Inl e \<Rightarrow> Inl e
         | Inr r \<Rightarrow>
             if i = SIZE_MAX then Inl GateCounterWraps
             else parse_gates stringToGateType (fst r) (i + 1) (fst (snd r)) (snd (snd r)))
      else Inr (s, acc))"
  by pat_completeness auto
termination
proof (relation "measures [\<lambda>(conv, s, i, m, acc). stream_size s, \<lambda>(conv, s, i, m, acc). Suc m - i]")
  show "wf (measures [\<lambda>(conv, s, i, m, acc). stream_size s, \<lambda>(conv, s, i, m, acc). Suc m - i])"
    by simp
next
  fix conv :: "string \<Rightarrow> GateType option" and s i m acc r
  assume "i \<le> m" and "parse_gate conv s m acc = Inr r"
  with parse_gate_measure [of conv s m acc "fst r" "fst (snd r)" "snd (snd r)"]
  show "((conv, fst r, i + 1, fst (snd r), snd (snd r)), (conv, s, i, m, acc))
      \<in> measures [\<lambda>(conv, s, i, m, acc). stream_size s, \<lambda>(conv, s, i, m, acc). Suc m - i]"
    by (auto simp: case_prod_beta)
qed

declare parse_gates.simps [simp del]


definition initial_gates :: parsed_gates where
  "initial_gates = \<lparr> operations = [], operands_of = [], oper_count = 0 \<rparr>"

text \<open>The body of the loop over the records, lines 76 to 129.\<close>

definition read_record ::
  "(string \<Rightarrow> GateType option) \<Rightarrow> nat \<Rightarrow> stream \<Rightarrow> CircuitDB \<Rightarrow> int
     \<Rightarrow> read_error + (stream \<times> CircuitDB)" where
  "read_record stringToGateType inputs_number s db subcircuit_index =
     (let r0 = read_size_t 0 s; outputs_number = fst r0;
          r1 = read_vector read_int32 0 outputs_number (snd r0); outputs_patterns = fst r1;
          r2 = read_vector read_size_t 0 outputs_number (snd r1); cur_outputs = fst r2;
          max_index = fold max cur_outputs 0
      in case parse_gates stringToGateType (snd r2) inputs_number max_index initial_gates of
           Inl e \<Rightarrow> Inl e
         | Inr r \<Rightarrow>
             Inr (fst r,
                  db\<lparr> subcircuit_pattern_to_index :=
                         (subcircuit_pattern_to_index db)(outputs_patterns \<mapsto> subcircuit_index),
                      subcircuit_outputs := subcircuit_outputs db @ [cur_outputs],
                      gates_operands := gates_operands db @ [operands_of (snd r)],
                      OPER_number := OPER_number db @ [oper_count (snd r)],
                      gates_operations := gates_operations db @ [operations (snd r)] \<rparr>))"

lemma read_vector_size:
  assumes "\<And>v s. stream_size (snd (rd v s)) \<le> stream_size s"
  shows "stream_size (snd (read_vector rd v k s)) \<le> stream_size s"
proof (induction k arbitrary: s)
  case 0
  then show ?case by simp
next
  case (Suc k)
  have "stream_size (snd (read_vector rd v k (snd (rd v s)))) \<le> stream_size (snd (rd v s))"
    by (rule Suc.IH)
  also have "\<dots> \<le> stream_size s"
    by (rule assms)
  finally show ?case
    by (simp add: Let_def)
qed

lemma parse_gates_size:
  "parse_gates conv s i m acc = Inr (s', acc') \<Longrightarrow> stream_size s' \<le> stream_size s"
proof (induction conv s i m acc rule: parse_gates.induct)
  case (1 conv s i m acc)
  show ?case
  proof (cases "i \<le> m")
    case False
    with "1.prems" show ?thesis
      by (simp add: parse_gates.simps [of conv s i m acc])
  next
    case True
    with "1.prems" obtain r where step: "parse_gate conv s m acc = Inr r" and i: "i \<noteq> SIZE_MAX"
      and rest: "parse_gates conv (fst r) (i + 1) (fst (snd r)) (snd (snd r)) = Inr (s', acc')"
      by (auto simp: parse_gates.simps [of conv s i m acc] split: sum.splits if_splits)
    from "1.IH" [OF True step i rest] have "stream_size s' \<le> stream_size (fst r)" .
    moreover from parse_gate_measure [of conv s m acc "fst r" "fst (snd r)" "snd (snd r)"] step
    have "stream_size (fst r) \<le> stream_size s"
      by auto
    ultimately show ?thesis
      by simp
  qed
qed

lemma read_record_size:
  assumes "read_record conv n s db idx = Inr (s', db')"
  shows "stream_size s' \<le> stream_size s"
proof -
  let ?r0 = "read_size_t 0 s"
  let ?r1 = "read_vector read_int32 0 (fst ?r0) (snd ?r0)"
  let ?r2 = "read_vector read_size_t 0 (fst ?r0) (snd ?r1)"
  from assms obtain acc' where
    "parse_gates conv (snd ?r2) n (fold max (fst ?r2) 0) initial_gates = Inr (s', acc')"
    by (auto simp: read_record_def Let_def split: sum.splits)
  then have "stream_size s' \<le> stream_size (snd ?r2)"
    by (rule parse_gates_size)
  also have "\<dots> \<le> stream_size (snd ?r1)"
    by (rule read_vector_size) (simp add: read_size_t_def extract_size)
  also have "\<dots> \<le> stream_size (snd ?r0)"
    by (rule read_vector_size) (simp add: read_int32_def extract_size)
  also have "\<dots> \<le> stream_size s"
    by (simp add: read_size_t_def extract_size)
  finally show ?thesis .
qed

text \<open>
  The loop \<open>while (database >> inputs_number)\<close>: it ends at the first failed
  extraction of \<open>inputs_number\<close>, which is also how it ends at the end of the file.
\<close>

function read_records ::
  "(string \<Rightarrow> GateType option) \<Rightarrow> stream \<Rightarrow> CircuitDB \<Rightarrow> int \<Rightarrow> read_error + CircuitDB" where
  "read_records stringToGateType s db subcircuit_index =
     (let r = read_size_t 0 s
      in if snd r = None then Inr db
         else (case read_record stringToGateType (fst r) (snd r) db subcircuit_index of
                 Inl e \<Rightarrow> Inl e
               | Inr next \<Rightarrow>
                   read_records stringToGateType (fst next) (snd next) (subcircuit_index + 1)))"
  by pat_completeness auto
termination
proof (relation "measure (\<lambda>(conv, s, db, idx). stream_size s)")
  show "wf (measure (\<lambda>(conv, s, db, idx). stream_size s))"
    by simp
next
  fix conv :: "string \<Rightarrow> GateType option" and s db idx r "next"
  assume r: "r = read_size_t 0 s" and ok: "snd r \<noteq> None"
    and rec: "read_record conv (fst r) (snd r) db idx = Inr next"
  from ok r have "s \<noteq> None"
    by (cases s) (auto simp: read_size_t_def)
  then have "stream_size (snd r) < stream_size s"
    unfolding r read_size_t_def by (rule extract_consumes)
  moreover from read_record_size [of conv "fst r" "snd r" db idx "fst next" "snd next"] rec
  have "stream_size (fst next) \<le> stream_size (snd r)"
    by simp
  ultimately show "((conv, fst next, snd next, idx + 1), (conv, s, db, idx))
      \<in> measure (\<lambda>(conv, s, db, idx). stream_size s)"
    by simp
qed

declare read_records.simps [simp del]

definition empty_db :: CircuitDB where
  "empty_db = \<lparr> subcircuit_pattern_to_index = Map.empty, subcircuit_outputs = [],
     gates_operands = [], OPER_number = [], gates_operations = [] \<rparr>"

definition read_db :: "(string \<Rightarrow> GateType option) \<Rightarrow> stream \<Rightarrow> read_error + CircuitDB" where
  "read_db stringToGateType database = read_records stringToGateType database empty_db 0"

text \<open>
  Modelled from the spec: a \<open>stringToGateType\<close> for the examples, on the names of the
  basic gate types that the spec says the database uses.
\<close>

definition basicGateType :: "string \<Rightarrow> GateType option" where
  "basicGateType name =
     (if name = ''NOT'' then Some NOT else if name = ''AND'' then Some AND
      else if name = ''OR'' then Some OR else if name = ''NAND'' then Some NAND
      else if name = ''NOR'' then Some NOR else if name = ''XOR'' then Some XOR
      else if name = ''XNOR'' then Some XNOR else None)"


section \<open>Invariants of the coloring\<close>

text \<open>
  The invariant of the color table: \<open>next_color_id_\<close> is the size of \<open>colors\<close>, a
  triple is a key of \<open>parentsToColor\<close> with value \<open>c\<close> exactly when \<open>c\<close> indexes
  \<open>colors\<close> and the triple is the parents of \<open>colors[c]\<close>, and the parents of every
  color are in ascending order.
\<close>

definition colorsInv :: "ThreeColoring \<Rightarrow> bool" where
  "colorsInv st \<longleftrightarrow>
     next_color_id st = length (colors st) \<and>
     (\<forall>k c. parentsToColor st k = Some c \<longleftrightarrow> c < length (colors st) \<and> getParents (colors st ! c) = k) \<and>
     (\<forall>c < length (colors st). sorted (getParents (colors st ! c)))"

text \<open>
  What a sequence of \<open>paintGate\<close> and \<open>addColor\<close> calls for one gate \<open>g\<close> does: the
  ColorIds \<open>cs\<close> are appended to the entry of \<open>g\<close> in \<open>gateColors\<close>, they index
  \<open>colors\<close>, \<open>colors\<close> does not shrink and the invariant of the color table is kept.
  \<open>gateStep\<close> is the same for a whole iteration of the loop, which may also write
  \<open>negationUsers\<close>.
\<close>

definition paints :: "GateId \<Rightarrow> ColorId list \<Rightarrow> ThreeColoring \<Rightarrow> ThreeColoring \<Rightarrow> bool" where
  "paints g cs st st' \<longleftrightarrow>
     (cs \<noteq> [] \<longrightarrow> g < length (gateColors st)) \<and>
     gateColors st' = (gateColors st)[g := gateColors st ! g @ cs] \<and>
     negationUsers st' = negationUsers st \<and>
     length (colors st) \<le> length (colors st') \<and>
     set cs \<subseteq> {..<length (colors st')} \<and>
     (colorsInv st \<longrightarrow> colorsInv st')"

definition paintsOne :: "GateId \<Rightarrow> ThreeColoring \<Rightarrow> ThreeColoring \<Rightarrow> bool" where
  "paintsOne g st st' \<longleftrightarrow> (\<exists>cs. length cs \<le> 1 \<and> paints g cs st st')"

definition paintsTwo :: "GateId \<Rightarrow> ThreeColoring \<Rightarrow> ThreeColoring \<Rightarrow> bool" where
  "paintsTwo g st st' \<longleftrightarrow> (\<exists>cs. length cs \<le> 2 \<and> paints g cs st st')"

definition gateStep :: "GateId \<Rightarrow> ColorId list \<Rightarrow> ThreeColoring \<Rightarrow> ThreeColoring \<Rightarrow> bool" where
  "gateStep g cs st st' \<longleftrightarrow>
     gateColors st' = (gateColors st)[g := gateColors st ! g @ cs] \<and>
     length (negationUsers st') = length (negationUsers st) \<and>
     length (colors st) \<le> length (colors st') \<and>
     set cs \<subseteq> {..<length (colors st')} \<and>
     (colorsInv st \<longrightarrow> colorsInv st')"

definition atMostTwo :: "ThreeColoring \<Rightarrow> bool" where
  "atMostTwo st \<longleftrightarrow> (\<forall>cs \<in> set (gateColors st). length cs \<le> 2)"

text \<open>
  The effect of one find-or-create-and-paint block of the source on the whole state: the
  gate gets exactly one more ColorId, the one of the triple \<open>key\<close>; the color is created,
  with the next free ColorId, only when the triple is not yet a key of \<open>parentsToColor\<close>.
\<close>

definition paintsTriple :: "GateId \<Rightarrow> GateIdContainer \<Rightarrow> ThreeColoring \<Rightarrow> ThreeColoring \<Rightarrow> bool" where
  "paintsTriple g key st st' \<longleftrightarrow>
     (case parentsToColor st key of
        Some c \<Rightarrow>
          st' = st\<lparr> colors := (colors st)[c := addGate g (colors st ! c)],
                   gateColors := (gateColors st)[g := gateColors st ! g @ [c]] \<rparr>
      | None \<Rightarrow>
          st' = st\<lparr> colors := colors st @ [addGate g (ThreeColor (key ! 0) (key ! 1) (key ! 2))],
                   gateColors := (gateColors st)[g := gateColors st ! g @ [length (colors st)]],
                   parentsToColor := (parentsToColor st)(key \<mapsto> length (colors st)),
                   next_color_id := length (colors st) + 1 \<rparr>)"

section \<open>Valid inputs\<close>

text \<open>
  A valid circuit: the sort lists every gate id below the number of gates exactly once,
  and every operand is a gate of the circuit other than the gate itself. That the sort
  is topological is not needed by any result below.
\<close>

definition validCircuit :: "ICircuit \<Rightarrow> GateIdContainer \<Rightarrow> bool" where
  "validCircuit circuit gate_sorting \<longleftrightarrow>
     distinct gate_sorting \<and> length gate_sorting = getNumberOfGates circuit \<and>
     list_all (\<lambda>g. g < getNumberOfGates circuit \<and>
                 list_all (\<lambda>a. a < getNumberOfGates circuit \<and> a \<noteq> g) (getGateOperands circuit g))
       gate_sorting"

text \<open>
  A well-formed TwoColoring of a circuit with \<open>n\<close> gates: the per-gate table has \<open>n\<close>
  entries, each \<open>SIZE_MAX\<close> or an index into the table of TwoColors, and the parents of
  every TwoColor are gates of the circuit.
\<close>

definition wfTwoColoring :: "nat \<Rightarrow> TwoColoring \<Rightarrow> bool" where
  "wfTwoColoring n t \<longleftrightarrow>
     length (gateColor t) = n \<and>
     list_all (\<lambda>c. c = SIZE_MAX \<or> c < length (TwoColoring.colors t)) (gateColor t) \<and>
     list_all (\<lambda>c. TwoColor.first_parent c < n \<and> TwoColor.second_parent c < n) (TwoColoring.colors t)"

text \<open>
  The state between two iterations of the constructor's loop on a circuit with \<open>n\<close>
  gates: every ColorId in \<open>gateColors\<close> indexes \<open>colors\<close>, and both per-gate tables
  have \<open>n\<close> entries.
\<close>

definition idsInv :: "ThreeColoring \<Rightarrow> bool" where
  "idsInv st \<longleftrightarrow> (\<forall>cs \<in> set (gateColors st). \<forall>c \<in> set cs. c < length (colors st))"

definition ready :: "nat \<Rightarrow> ThreeColoring \<Rightarrow> bool" where
  "ready n st \<longleftrightarrow>
     colorsInv st \<and> idsInv st \<and> length (gateColors st) = n \<and> length (negationUsers st) = n"

section \<open>Records and keys of a database file\<close>

definition extracted_value :: "'a extracted \<Rightarrow> 'a" where
  "extracted_value x = (case x of Good v \<Rightarrow> v | Bad v \<Rightarrow> v)"

definition is_good :: "'a extracted \<Rightarrow> bool" where
  "is_good x = (case x of Good v \<Rightarrow> True | Bad v \<Rightarrow> False)"

text \<open>
  The key of the record at the head of a stream (after its \<open>inputs_number\<close>): the
  vector of truth-table integers as \<open>read_record\<close> reads it. \<open>record_keys\<close> lists the
  keys of the records of a file in file order, the \<open>j\<close>-th record being the one that
  \<open>read_db\<close> gives the subcircuit index \<open>j\<close>.
\<close>

definition pattern_key :: "stream \<Rightarrow> int list" where
  "pattern_key s =
     (let r0 = read_size_t 0 s in fst (read_vector read_int32 0 (fst r0) (snd r0)))"

function record_keys :: "(string \<Rightarrow> GateType option) \<Rightarrow> stream \<Rightarrow> int list list" where
  "record_keys stringToGateType s =
     (let r = read_size_t 0 s
      in if snd r = None then []
         else (case read_record stringToGateType (fst r) (snd r) empty_db 0 of
                 Inl e \<Rightarrow> []
               | Inr next \<Rightarrow> pattern_key (snd r) # record_keys stringToGateType (fst next)))"
  by pat_completeness auto
termination
proof (relation "measure (\<lambda>(conv, s). stream_size s)")
  show "wf (measure (\<lambda>(conv, s). stream_size s))"
    by simp
next
  fix conv :: "string \<Rightarrow> GateType option" and s r "next"
  assume r: "r = read_size_t 0 s" and ok: "snd r \<noteq> None"
    and rec: "read_record conv (fst r) (snd r) empty_db 0 = Inr next"
  from ok r have "s \<noteq> None"
    by (cases s) (auto simp: read_size_t_def)
  then have "stream_size (snd r) < stream_size s"
    unfolding r read_size_t_def by (rule extract_consumes)
  moreover from read_record_size [of conv "fst r" "snd r" empty_db 0 "fst next" "snd next"] rec
  have "stream_size (fst next) \<le> stream_size (snd r)"
    by simp
  ultimately show "((conv, fst next), (conv, s)) \<in> measure (\<lambda>(conv, s). stream_size s)"
    by simp
qed

declare record_keys.simps [simp del]



section \<open>A worked example\<close>

text \<open>
  Eight gates: four inputs, \<open>4 = AND(0, 1)\<close>, \<open>5 = AND(2, 3)\<close>, \<open>6 = AND(4, 5)\<close> and
  \<open>7 = NOT(6)\<close>. The three binary gates have the TwoColors of their operand pairs.
  Gate 6 falls into the 2-2 case with disjoint parent pairs and gets two ThreeColors,
  which gate 7 inherits.
\<close>

definition ex_circuit :: ICircuit where
  "ex_circuit = \<lparr> getNumberOfGates = 8,
     getGateOperands = (\<lambda>g. [[], [], [], [], [0, 1], [2, 3], [4, 5], [6]] ! g),
     getGateType = (\<lambda>g. [INPUT, INPUT, INPUT, INPUT, AND, AND, AND, NOT] ! g) \<rparr>"

definition ex_sorting :: GateIdContainer where
  "ex_sorting = [7, 6, 5, 4, 3, 2, 1, 0]"

definition ex_twoColoring :: TwoColoring where
  "ex_twoColoring = \<lparr> TwoColoring.colors =
       [\<lparr>TwoColor.first_parent = 0, second_parent = 1\<rparr>,
        \<lparr>TwoColor.first_parent = 2, second_parent = 3\<rparr>,
        \<lparr>TwoColor.first_parent = 4, second_parent = 5\<rparr>],
     gateColor = [SIZE_MAX, SIZE_MAX, SIZE_MAX, SIZE_MAX, 0, 1, 2, SIZE_MAX] \<rparr>"

definition ex_result :: ThreeColoring where
  "ex_result = \<lparr> colors =
       [\<lparr>ThreeColor.first_parent = 0, second_parent = 1, third_parent = 5, gates = [6, 7]\<rparr>,
        \<lparr>ThreeColor.first_parent = 2, second_parent = 3, third_parent = 4, gates = [6, 7]\<rparr>],
     gateColors = [[], [], [], [], [], [], [0, 1], [0, 1]],
     parentsToColor = [[0, 1, 5] \<mapsto> 0, [2, 3, 4] \<mapsto> 1],
     negationUsers = [SIZE_MAX, SIZE_MAX, SIZE_MAX, SIZE_MAX, SIZE_MAX, SIZE_MAX, 7, SIZE_MAX],
     next_color_id = 2 \<rparr>"

text \<open>The state of the example after gate 6 is processed, and between its two paints.\<close>

definition ex_mid :: ThreeColoring where
  "ex_mid = \<lparr> colors =
       [\<lparr>ThreeColor.first_parent = 0, second_parent = 1, third_parent = 5, gates = [6]\<rparr>],
     gateColors = [[], [], [], [], [], [], [0], []],
     parentsToColor = [[0, 1, 5] \<mapsto> 0],
     negationUsers = [SIZE_MAX, SIZE_MAX, SIZE_MAX, SIZE_MAX, SIZE_MAX, SIZE_MAX, SIZE_MAX, SIZE_MAX],
     next_color_id = 1 \<rparr>"

definition ex_after6 :: ThreeColoring where
  "ex_after6 = \<lparr> colors =
       [\<lparr>ThreeColor.first_parent = 0, second_parent = 1, third_parent = 5, gates = [6]\<rparr>,
        \<lparr>ThreeColor.first_parent = 2, second_parent = 3, third_parent = 4, gates = [6]\<rparr>],
     gateColors = [[], [], [], [], [], [], [0, 1], []],
     parentsToColor = [[0, 1, 5] \<mapsto> 0, [2, 3, 4] \<mapsto> 1],
     negationUsers = [SIZE_MAX, SIZE_MAX, SIZE_MAX, SIZE_MAX, SIZE_MAX, SIZE_MAX, SIZE_MAX, SIZE_MAX],
     next_color_id = 2 \<rparr>"

text \<open>A circuit with a gate of three operands: gate 3 is \<open>MUX(0, 1, 2)\<close>.\<close>

definition ex_mux_circuit :: ICircuit where
  "ex_mux_circuit = \<lparr> getNumberOfGates = 4,
     getGateOperands = (\<lambda>g. [[], [], [], [0, 1, 2]] ! g),
     getGateType = (\<lambda>g. [INPUT, INPUT, INPUT, MUX] ! g) \<rparr>"

definition ex_mux_twoColoring :: TwoColoring where
  "ex_mux_twoColoring = \<lparr> TwoColoring.colors = [],
     gateColor = [SIZE_MAX, SIZE_MAX, SIZE_MAX, SIZE_MAX] \<rparr>"

text \<open>
  Three database files. The first has one record with two outputs whose truth tables are
  listed in descending order. The second has one record whose only output, gate 2, is the
  negation of gate 3, so that an operand id exceeds the largest output id. The third has
  two records with the same truth table.
\<close>

definition ex_db_tokens :: "string list" where
  "ex_db_tokens = [''2'', ''2'', ''14'', ''8'', ''2'', ''3'', ''OR'', ''0'', ''1'', ''AND'', ''0'', ''1'']"

definition ex_db :: CircuitDB where
  "ex_db = \<lparr> subcircuit_pattern_to_index = [[14, 8] \<mapsto> 0], subcircuit_outputs = [[2, 3]],
     gates_operands = [[[0, 1], [0, 1]]], OPER_number = [2], gates_operations = [[OR, AND]] \<rparr>"

definition ex_forward_tokens :: "string list" where
  "ex_forward_tokens = [''2'', ''1'', ''7'', ''2'', ''NOT'', ''3'', ''AND'', ''0'', ''1'']"

definition ex_forward_db :: CircuitDB where
  "ex_forward_db = \<lparr> subcircuit_pattern_to_index = [[7] \<mapsto> 0], subcircuit_outputs = [[2]],
     gates_operands = [[[3], [0, 1]]], OPER_number = [1], gates_operations = [[NOT, AND]] \<rparr>"

definition ex_dup_tokens :: "string list" where
  "ex_dup_tokens = [''2'', ''1'', ''8'', ''2'', ''AND'', ''0'', ''1'',
                    ''2'', ''1'', ''8'', ''2'', ''AND'', ''1'', ''0'']"

definition ex_dup_db :: CircuitDB where
  "ex_dup_db = \<lparr> subcircuit_pattern_to_index = [[8] \<mapsto> 1], subcircuit_outputs = [[2], [2]],
     gates_operands = [[[0, 1]], [[1, 0]]], OPER_number = [1, 1],
     gates_operations = [[AND], [AND]] \<rparr>"


section \<open>Basic facts\<close>

lemma bindE_Inl [simp]: "bindE (Inl e) f = Inl e"
  by (simp add: bindE_def)

lemma bindE_Inr [simp]: "bindE (Inr x) f = f x"
  by (simp add: bindE_def)

lemma bindE_cong:
  "m = m' \<Longrightarrow> (\<And>x. m' = Inr x \<Longrightarrow> f x = f' x) \<Longrightarrow> bindE m f = bindE m' f'"
  by (cases m') (simp_all add: bindE_def)


lemma bindE_InrE:
  assumes "bindE m f = Inr y"
  obtains x where "m = Inr x" and "f x = Inr y"
  using assms by (cases m) (simp_all add: bindE_def)

lemma bindE_InlE:
  assumes "bindE m f = Inl e"
  obtains "m = Inl e" | x where "m = Inr x" and "f x = Inl e"
  using assms by (cases m) (simp_all add: bindE_def)

lemma bindE_eq_Inr: "bindE m f = Inr y \<longleftrightarrow> (\<exists>x. m = Inr x \<and> f x = Inr y)"
  by (cases m) (simp_all add: bindE_def)

lemma bindE_eq_Inl: "bindE m f = Inl e \<longleftrightarrow> m = Inl e \<or> (\<exists>x. m = Inr x \<and> f x = Inl e)"
  by (cases m) (simp_all add: bindE_def)

lemma vec_at_Inr_iff: "vec_at xs i w = Inr x \<longleftrightarrow> i < length xs \<and> x = xs ! i"
  by (auto simp: vec_at_def)

lemma vec_at_Inl_iff: "vec_at xs i w = Inl e \<longleftrightarrow> \<not> i < length xs \<and> e = OutOfRange w"
  by (auto simp: vec_at_def)

lemma list3_nth: "length k = 3 \<Longrightarrow> [k ! 0, k ! 1, k ! 2] = k"
  by (cases k; cases "tl k"; cases "tl (tl k)") auto

lemma length_sortedParents [simp]: "length (sortedParents a b c) = 3"
  by (simp add: sortedParents_def)

lemma sorted_sortedParents [simp]: "sorted (sortedParents a b c)"
  by (simp add: sortedParents_def del: sort_key_simps)

lemma sortedParents_id:
  assumes "length k = 3" and "sorted k"
  shows "sortedParents (k ! 0) (k ! 1) (k ! 2) = k"
proof -
  have "sortedParents (k ! 0) (k ! 1) (k ! 2) = sort k"
    by (simp only: sortedParents_def list3_nth [OF assms(1)])
  with assms(2) show ?thesis by (simp add: sorted_sort_id)
qed

lemma getParents_ThreeColor [simp]: "getParents (ThreeColor a b c) = sortedParents a b c"
  using list3_nth [of "sortedParents a b c"]
  by (simp add: getParents_def ThreeColor_def Let_def)

lemma getParents_addGate [simp]: "getParents (addGate g c) = getParents c"
  by (simp add: getParents_def addGate_def)

lemma hasParent_addGate [simp]: "hasParent (addGate g c) p = hasParent c p"
  by (simp add: hasParent_def addGate_def)

lemma length_getParents [simp]: "length (getParents c) = 3"
  by (simp add: getParents_def)


lemma paints_refl: "paints g [] st st"
  by (simp add: paints_def)

lemma paints_trans:
  assumes "paints g cs st st1" and "paints g ds st1 st2"
  shows "paints g (cs @ ds) st st2"
proof (cases "g < length (gateColors st)")
  case True
  with assms show ?thesis
    by (auto simp: paints_def)
next
  case False
  with assms have "cs = []" and "ds = []"
    by (auto simp: paints_def)
  with assms show ?thesis
    by (auto simp: paints_def)
qed

lemma paintGate_Inr_iff:
  "paintGate g c st = Inr st' \<longleftrightarrow>
     c < length (colors st) \<and> g < length (gateColors st) \<and>
     st' = st\<lparr> colors := (colors st)[c := addGate g (colors st ! c)],
              gateColors := (gateColors st)[g := gateColors st ! g @ [c]] \<rparr>"
  by (auto simp: paintGate_def)

lemma colorsInv_paintGate:
  assumes "colorsInv st"
  shows "colorsInv (st\<lparr> colors := (colors st)[c := addGate g (colors st ! c)], gateColors := gcs \<rparr>)"
proof -
  have "getParents ((colors st)[c := addGate g (colors st ! c)] ! i) = getParents (colors st ! i)"
    if "i < length (colors st)" for i
    using that by (cases "i = c") simp_all
  with assms show ?thesis
    by (simp add: colorsInv_def cong: conj_cong)
qed

lemma paintGate_paints:
  assumes "paintGate g c st = Inr st'"
  shows "paints g [c] st st'"
  using assms colorsInv_paintGate [where st = st and c = c and g = g]
  by (auto simp: paintGate_Inr_iff paints_def)

lemma addColor_fields [simp]:
  "colors (snd (addColor a b c st)) = colors st @ [ThreeColor a b c]"
  "gateColors (snd (addColor a b c st)) = gateColors st"
  "negationUsers (snd (addColor a b c st)) = negationUsers st"
  "next_color_id (snd (addColor a b c st)) = next_color_id st + 1"
  "parentsToColor (snd (addColor a b c st)) = (parentsToColor st)(sortedParents a b c \<mapsto> next_color_id st)"
  by (simp_all add: addColor_def)

lemma colorsInv_addColor:
  assumes inv: "colorsInv st" and absent: "parentsToColor st (sortedParents a b c) = None"
  shows "colorsInv (snd (addColor a b c st))"
proof -
  let ?n = "length (colors st)"
  let ?k = "sortedParents a b c"
  let ?st' = "snd (addColor a b c st)"
  have map: "parentsToColor st k' = Some i \<longleftrightarrow> i < ?n \<and> getParents (colors st ! i) = k'" for k' i
    using inv by (simp add: colorsInv_def)
  have fresh: "getParents (colors st ! i) \<noteq> ?k" if "i < ?n" for i
    using map [of ?k i] absent that by simp
  have "parentsToColor ?st' k' = Some i \<longleftrightarrow> i < length (colors ?st') \<and> getParents (colors ?st' ! i) = k'"
    for k' i
  proof (cases "i < ?n")
    case True
    then show ?thesis
      using map [of k' i] fresh [of i] inv by (auto simp: nth_append colorsInv_def)
  next
    case False
    then show ?thesis
      using map [of k' i] inv by (auto simp: nth_append colorsInv_def)
  qed
  moreover have "sorted (getParents (colors ?st' ! i))" if "i < length (colors ?st')" for i
    using that inv by (cases "i < ?n") (auto simp: nth_append colorsInv_def)
  moreover have "next_color_id ?st' = length (colors ?st')"
    using inv by (simp add: colorsInv_def)
  ultimately show ?thesis
    unfolding colorsInv_def by blast
qed

lemma map_index_present: "m k = Some v \<Longrightarrow> map_index m k = (v, m)"
  by (simp add: map_index_def)

lemma paintParents_paints:
  assumes k: "length k = 3" "sorted k" and run: "paintParents g k st = Inr st'"
  shows "\<exists>c. paints g [c] st st'"
proof (cases "parentsToColor st k")
  case None
  define st1 where "st1 = snd (addColor (k ! 0) (k ! 1) (k ! 2) st)"
  have key: "sortedParents (k ! 0) (k ! 1) (k ! 2) = k"
    using k by (rule sortedParents_id)
  have ptc: "parentsToColor st1 = (parentsToColor st)(k \<mapsto> next_color_id st)"
    unfolding st1_def by (simp only: addColor_fields key)
  have look: "map_index (parentsToColor st1) k = (next_color_id st, parentsToColor st1)"
    by (rule map_index_present) (simp add: ptc)
  have "paintParents g k st = paintGate g (next_color_id st) st1"
    unfolding paintParents_def st1_def [symmetric] using None by (simp add: Let_def look)
  with run have "paintGate g (next_color_id st) st1 = Inr st'"
    by simp
  then have p: "paints g [next_color_id st] st1 st'"
    by (rule paintGate_paints)
  have "colorsInv st1" if "colorsInv st"
  proof -
    from None have "parentsToColor st (sortedParents (k ! 0) (k ! 1) (k ! 2)) = None"
      by (simp only: key)
    with that show ?thesis
      unfolding st1_def by (rule colorsInv_addColor)
  qed
  moreover have "gateColors st1 = gateColors st" "negationUsers st1 = negationUsers st"
    "length (colors st) \<le> length (colors st1)"
    unfolding st1_def by simp_all
  ultimately have "paints g [next_color_id st] st st'"
    using p by (simp add: paints_def)
  then show ?thesis ..
next
  case (Some c)
  then have look: "map_index (parentsToColor st) k = (c, parentsToColor st)"
    by (rule map_index_present)
  from run Some have "paintGate g c st = Inr st'"
    by (simp add: paintParents_def Let_def look)
  then have "paints g [c] st st'"
    by (rule paintGate_paints)
  then show ?thesis ..
qed

lemma paintAll_paints: "paintAll g cs st = Inr st' \<Longrightarrow> paints g cs st st'"
proof (induction cs arbitrary: st)
  case Nil
  then show ?case by (simp add: paints_refl)
next
  case (Cons c cs)
  from Cons.prems obtain st1 where 1: "paintGate g c st = Inr st1" and 2: "paintAll g cs st1 = Inr st'"
    by (auto elim: bindE_InrE)
  from paints_trans [OF paintGate_paints [OF 1] Cons.IH [OF 2]] show ?case
    by simp
qed


lemma paintsOne_refl: "paintsOne g st st"
  unfolding paintsOne_def by (rule exI [of _ "[]"]) (simp add: paints_refl)

lemma paintsTwo_refl: "paintsTwo g st st"
  unfolding paintsTwo_def by (rule exI [of _ "[]"]) (simp add: paints_refl)

lemma paintsOne_Two:
  assumes "paintsOne g st st'"
  shows "paintsTwo g st st'"
proof -
  from assms obtain cs where "length cs \<le> 1" "paints g cs st st'"
    unfolding paintsOne_def by blast
  then have "length cs \<le> 2 \<and> paints g cs st st'"
    by simp
  then show ?thesis
    unfolding paintsTwo_def ..
qed

lemma paintsOne_trans:
  assumes "paintsOne g st st1" and "paintsOne g st1 st'"
  shows "paintsTwo g st st'"
proof -
  from assms obtain cs ds where "length cs \<le> 1" "paints g cs st st1" "length ds \<le> 1" "paints g ds st1 st'"
    unfolding paintsOne_def by blast
  then have "length (cs @ ds) \<le> 2 \<and> paints g (cs @ ds) st st'"
    by (simp add: paints_trans)
  then show ?thesis
    unfolding paintsTwo_def ..
qed

lemma paintGate_One: "paintGate g c st = Inr st' \<Longrightarrow> paintsOne g st st'"
  unfolding paintsOne_def by (rule exI [of _ "[c]"]) (simp add: paintGate_paints)

lemma paintParents_One: "paintParents g (sortedParents a b c) st = Inr st' \<Longrightarrow> paintsOne g st st'"
  using paintParents_paints [of "sortedParents a b c" g st st'] unfolding paintsOne_def
  by (metis length_Cons list.size(3) order_refl One_nat_def length_sortedParents sorted_sortedParents)

lemma paintGate_Two: "paintGate g c st = Inr st' \<Longrightarrow> paintsTwo g st st'"
  by (rule paintsOne_Two) (rule paintGate_One)

lemma paintParents_Two: "paintParents g (sortedParents a b c) st = Inr st' \<Longrightarrow> paintsTwo g st st'"
  by (rule paintsOne_Two) (rule paintParents_One)

lemma paintGate_then_One: "paintGate g c st = Inr st1 \<Longrightarrow> paintsOne g st1 st' \<Longrightarrow> paintsTwo g st st'"
  by (rule paintsOne_trans) (rule paintGate_One)

lemma paintGate_twice: "paintGate g c st = Inr st1 \<Longrightarrow> paintGate g d st1 = Inr st' \<Longrightarrow> paintsTwo g st st'"
  by (blast intro: paintsOne_trans paintGate_One)

lemma paintParents_twice:
  "paintParents g (sortedParents a b c) st = Inr st1 \<Longrightarrow>
   paintParents g (sortedParents d e f) st1 = Inr st' \<Longrightarrow> paintsTwo g st st'"
  by (blast intro: paintsOne_trans paintParents_One)

lemma paintType13_paints:
  assumes "paintType13 t g child_1 child_2 c13 st = Inr st'"
  shows "paintsTwo g st st'"
proof -
  from assms have "\<exists>st1. paintGate g c13 st = Inr st1 \<and> paintsOne g st1 st'"
    unfolding paintType13_def
    by (fastforce simp: bindE_eq_Inr split: if_splits intro: paintGate_One paintParents_One paintsOne_refl)
  then show ?thesis
    by (auto intro: paintGate_then_One)
qed

lemma paintType31_paints:
  assumes "paintType31 t g child_1 child_2 c31 st = Inr st'"
  shows "paintsTwo g st st'"
proof -
  from assms have "\<exists>st1. paintGate g c31 st = Inr st1 \<and> paintsOne g st1 st'"
    unfolding paintType31_def
    by (fastforce simp: bindE_eq_Inr split: if_splits intro: paintGate_One paintParents_One paintsOne_refl)
  then show ?thesis
    by (auto intro: paintGate_then_One)
qed

lemma paintType22_paints:
  assumes "paintType22 t g child_1 child_2 f s st = Inr st'"
  shows "paintsTwo g st st'"
  using assms unfolding paintType22_def Let_def
  by (auto simp: bindE_eq_Inr split: if_splits intro: paintParents_Two paintParents_twice)

lemma paintFallback_paints:
  assumes "paintFallback t g child_1 child_2 f s st = Inr st'"
  shows "paintsTwo g st st'"
  using assms unfolding paintFallback_def
  by (auto simp: bindE_eq_Inr split: if_splits intro: paintParents_Two)

lemma paintSingle_paints:
  assumes "paintSingle t g child_1 child_2 st = Inr st'"
  shows "paintsTwo g st st'"
  using assms unfolding paintSingle_def
  by (auto simp: bindE_eq_Inr split: if_splits
        intro: paintGate_Two paintType22_paints paintFallback_paints)

lemma paintBinary_paints:
  assumes "paintBinary t g child_1 child_2 st = Inr st'"
  shows "paintsTwo g st st'"
  using assms unfolding paintBinary_def Let_def
  by (auto simp: bindE_eq_Inr split: if_splits
        intro: paintGate_Two paintGate_twice
          paintType13_paints paintType31_paints paintSingle_paints)

lemma processBinary_paints:
  assumes "processBinary t g st = Inr st'"
  shows "paintsTwo g st st'"
  using assms unfolding processBinary_def Let_def
  by (auto simp: bindE_eq_Inr split: if_splits intro: paintsTwo_refl paintBinary_paints)


lemma paints_gateStep: "paints g cs st st' \<Longrightarrow> gateStep g cs st st'"
  by (simp add: paints_def gateStep_def)

lemma colorsInv_negationUsers [simp]: "colorsInv (st\<lparr> negationUsers := us \<rparr>) = colorsInv st"
  by (simp add: colorsInv_def)

lemma gateStep_negationUsers:
  "gateStep g cs st st' \<Longrightarrow> gateStep g cs st (st'\<lparr> negationUsers := (negationUsers st')[a := b] \<rparr>)"
  by (simp add: gateStep_def)

lemma processUnary_step:
  assumes "processUnary circuit g a st = Inr st'"
  shows "a < length (gateColors st) \<and> gateStep g (gateColors st ! a) st st'"
proof -
  from assms obtain st1 where a: "a < length (gateColors st)"
    and 1: "paintAll g (gateColors st ! a) st = Inr st1"
    and 2: "st' = st1 \<or> st' = st1\<lparr> negationUsers := (negationUsers st1)[a := g] \<rparr>"
    unfolding processUnary_def
    by (auto simp: bindE_eq_Inr vec_at_Inr_iff split: if_splits)
  from paintAll_paints [OF 1] have "gateStep g (gateColors st ! a) st st1"
    by (rule paints_gateStep)
  with 2 a show ?thesis
    by (auto intro: gateStep_negationUsers)
qed

lemma processBinary_step:
  assumes "processBinary t g st = Inr st'"
  shows "\<exists>cs. length cs \<le> 2 \<and> gateStep g cs st st'"
  using processBinary_paints [OF assms] unfolding paintsTwo_def
  by (auto intro: paints_gateStep)

lemma gateStep_refl: "gateStep g [] st st"
  by (simp add: gateStep_def)

lemma processGate_cases:
  "processGate circuit t g st =
     (case getGateOperands circuit g of
        [] \<Rightarrow> Inr st
      | [a] \<Rightarrow> processUnary circuit g a st
      | [a, b] \<Rightarrow> processBinary t g st
      | _ \<Rightarrow> Inl (NonBinaryGate g))"
  by (simp add: processGate_def Let_def split: list.splits)

lemma processGate_step:
  assumes "processGate circuit t g st = Inr st'"
  shows "\<exists>cs. gateStep g cs st st' \<and>
           (length cs \<le> 2 \<or> (\<exists>a < length (gateColors st). cs = gateColors st ! a))"
proof -
  have nil: "gateStep g [] st st \<and> length ([] :: ColorId list) \<le> 2"
    by (simp add: gateStep_refl)
  from assms show ?thesis
    unfolding processGate_cases
    using nil processUnary_step [of circuit g _ st st'] processBinary_step [of t g st st']
    by (auto split: list.splits)
qed

lemma processGates_colorsInv:
  "processGates circuit t gs st = Inr st' \<Longrightarrow> colorsInv st \<Longrightarrow> colorsInv st'"
proof (induction gs arbitrary: st)
  case Nil
  then show ?case by simp
next
  case (Cons g gs)
  from Cons.prems(1) obtain st1 where 1: "processGate circuit t g st = Inr st1"
    and 2: "processGates circuit t gs st1 = Inr st'"
    by (auto simp: bindE_eq_Inr)
  from processGate_step [OF 1] Cons.prems(2) have "colorsInv st1"
    by (auto simp: gateStep_def)
  with Cons.IH [OF 2] show ?case .
qed

lemma colorsInv_initial: "colorsInv (initialColoring n)"
  by (simp add: colorsInv_def initialColoring_def)

lemma processGates_atMostTwo:
  "processGates circuit t gs st = Inr st' \<Longrightarrow> distinct gs \<Longrightarrow> atMostTwo st \<Longrightarrow>
   (\<forall>g \<in> set gs. g < length (gateColors st) \<longrightarrow> gateColors st ! g = []) \<Longrightarrow>
   atMostTwo st' \<and> length (gateColors st') = length (gateColors st)"
proof (induction gs arbitrary: st)
  case Nil
  then show ?case by simp
next
  case (Cons g gs)
  from Cons.prems(1) obtain st1 where 1: "processGate circuit t g st = Inr st1"
    and 2: "processGates circuit t gs st1 = Inr st'"
    by (auto simp: bindE_eq_Inr)
  from processGate_step [OF 1] obtain cs where
    gc: "gateColors st1 = (gateColors st)[g := gateColors st ! g @ cs]"
    and cs: "length cs \<le> 2 \<or> (\<exists>a < length (gateColors st). cs = gateColors st ! a)"
    by (auto simp: gateStep_def)
  from cs Cons.prems(3) have len: "length cs \<le> 2"
    by (auto simp: atMostTwo_def)
  have two: "atMostTwo st1"
  proof (cases "g < length (gateColors st)")
    case True
    with Cons.prems(4) len have "length (gateColors st ! g @ cs) \<le> 2"
      by simp
    with Cons.prems(3) show ?thesis
      unfolding atMostTwo_def gc
      using set_update_subset_insert [of "gateColors st" g "gateColors st ! g @ cs"] by auto
  next
    case False
    then have "length (gateColors st) \<le> g"
      by simp
    then have "gateColors st1 = gateColors st"
      unfolding gc by (rule list_update_beyond)
    with Cons.prems(3) show ?thesis
      by (simp add: atMostTwo_def)
  qed
  have empty: "\<forall>h \<in> set gs. h < length (gateColors st1) \<longrightarrow> gateColors st1 ! h = []"
  proof (intro ballI impI)
    fix h
    assume h: "h \<in> set gs" "h < length (gateColors st1)"
    with Cons.prems(2) have "h \<noteq> g"
      by auto
    with h Cons.prems(4) show "gateColors st1 ! h = []"
      by (simp add: gc)
  qed
  from Cons.prems(2) have "distinct gs"
    by simp
  from Cons.IH [OF 2 this two empty] show ?case
    by (simp add: gc)
qed

section \<open>Exact effects of single steps\<close>

lemma paintGate_ok:
  "c < length (colors st) \<Longrightarrow> g < length (gateColors st) \<Longrightarrow>
   paintGate g c st = Inr (st\<lparr> colors := (colors st)[c := addGate g (colors st ! c)],
              gateColors := (gateColors st)[g := gateColors st ! g @ [c]] \<rparr>)"
  by (simp add: paintGate_def)

lemma paintParents_exact:
  assumes inv: "colorsInv st" and g: "g < length (gateColors st)"
    and k: "length k = 3" "sorted k"
  shows "\<exists>st'. paintParents g k st = Inr st' \<and> paintsTriple g k st st'"
proof (cases "parentsToColor st k")
  case None
  define st1 where "st1 = snd (addColor (k ! 0) (k ! 1) (k ! 2) st)"
  have key: "sortedParents (k ! 0) (k ! 1) (k ! 2) = k"
    using k by (rule sortedParents_id)
  have nxt: "next_color_id st = length (colors st)"
    using inv by (simp add: colorsInv_def)
  have ptc: "parentsToColor st1 = (parentsToColor st)(k \<mapsto> length (colors st))"
    unfolding st1_def by (simp only: addColor_fields key nxt)
  have look: "map_index (parentsToColor st1) k = (length (colors st), parentsToColor st1)"
    by (rule map_index_present) (simp add: ptc)
  have run: "paintParents g k st = paintGate g (length (colors st)) st1"
    unfolding paintParents_def st1_def [symmetric] using None by (simp add: Let_def look)
  have st1: "st1 = st\<lparr> colors := colors st @ [ThreeColor (k ! 0) (k ! 1) (k ! 2)],
      parentsToColor := (parentsToColor st)(k \<mapsto> length (colors st)),
      next_color_id := length (colors st) + 1 \<rparr>"
    unfolding st1_def addColor_def by (simp only: key nxt snd_conv)
  have "paintGate g (length (colors st)) st1 =
      Inr (st1\<lparr> colors := (colors st1)[length (colors st) := addGate g (colors st1 ! length (colors st))],
              gateColors := (gateColors st1)[g := gateColors st1 ! g @ [length (colors st)]] \<rparr>)"
    by (rule paintGate_ok) (simp_all add: st1 g)
  with run None show ?thesis
    by (simp add: paintsTriple_def st1)
next
  case (Some c)
  then have look: "map_index (parentsToColor st) k = (c, parentsToColor st)"
    by (rule map_index_present)
  from Some inv have c: "c < length (colors st)"
    by (simp add: colorsInv_def)
  have "paintParents g k st = paintGate g c st"
    using Some by (simp add: paintParents_def Let_def look)
  with paintGate_ok [OF c g] Some show ?thesis
    by (simp add: paintsTriple_def)
qed

lemma paintAll_ok:
  "g < length (gateColors st) \<Longrightarrow> \<forall>c \<in> set cs. c < length (colors st) \<Longrightarrow>
   paintAll g cs st =
     Inr (st\<lparr> colors := fold (\<lambda>c cols. cols[c := addGate g (cols ! c)]) cs (colors st),
              gateColors := (gateColors st)[g := gateColors st ! g @ cs] \<rparr>)"
proof (induction cs arbitrary: st)
  case Nil
  then show ?case by simp
next
  case (Cons c cs)
  let ?st1 = "st\<lparr> colors := (colors st)[c := addGate g (colors st ! c)],
              gateColors := (gateColors st)[g := gateColors st ! g @ [c]] \<rparr>"
  from Cons.prems have 1: "paintGate g c st = Inr ?st1"
    by (simp add: paintGate_ok)
  from Cons.prems have "paintAll g cs ?st1 =
     Inr (?st1\<lparr> colors := fold (\<lambda>c cols. cols[c := addGate g (cols ! c)]) cs (colors ?st1),
              gateColors := (gateColors ?st1)[g := gateColors ?st1 ! g @ cs] \<rparr>)"
    by (intro Cons.IH) simp_all
  with 1 Cons.prems(1) show ?case
    by simp
qed


lemma processGates_append:
  "processGates circuit t (xs @ ys) st = bindE (processGates circuit t xs st) (processGates circuit t ys)"
proof (induction xs arbitrary: st)
  case Nil
  then show ?case by simp
next
  case (Cons x xs)
  then show ?case
    by (cases "processGate circuit t x st") simp_all
qed

lemma processGates_frame:
  "processGates circuit t gs st = Inr st' \<Longrightarrow> g \<notin> set gs \<Longrightarrow> gateColors st' ! g = gateColors st ! g"
proof (induction gs arbitrary: st)
  case Nil
  then show ?case by simp
next
  case (Cons h gs)
  from Cons.prems(1) obtain st1 where 1: "processGate circuit t h st = Inr st1"
    and 2: "processGates circuit t gs st1 = Inr st'"
    by (auto simp: bindE_eq_Inr)
  from processGate_step [OF 1] Cons.prems(2) have "gateColors st1 ! g = gateColors st ! g"
    by (auto simp: gateStep_def)
  with Cons.IH [OF 2] Cons.prems(2) show ?case
    by simp
qed

lemma processBinary_skip:
  assumes "processBinary t g st = Inr st'"
    and "gateColor t ! g \<noteq> SIZE_MAX"
    and "gateColor t ! TwoColor.first_parent (TwoColoring.colors t ! (gateColor t ! g)) = SIZE_MAX"
    and "gateColor t ! TwoColor.second_parent (TwoColoring.colors t ! (gateColor t ! g)) = SIZE_MAX"
  shows "st' = st"
  using assms unfolding processBinary_def Let_def
  by (auto simp: bindE_eq_Inr vec_at_Inr_iff split: if_splits)




lemma scanSecondChild_none:
  "first_child_color \<notin> set scs \<Longrightarrow>
   \<forall>sc \<in> set scs. sc < length cols \<and> \<not> hasParent (cols ! sc) child_1 \<Longrightarrow>
   scanSecondChild cols child_1 first_child_color scs acc = Inr acc"
proof (induction scs)
  case Nil
  then show ?case by simp
next
  case (Cons sc scs)
  then show ?case
    by (cases acc) (simp add: vec_at_def)
qed

lemma scanFirstChild_none:
  "child_2 < length gcs \<Longrightarrow> set fcs \<inter> set (gcs ! child_2) = {} \<Longrightarrow>
   \<forall>sc \<in> set (gcs ! child_2). sc < length cols \<and> \<not> hasParent (cols ! sc) child_1 \<Longrightarrow>
   \<forall>fc \<in> set fcs. fc < length cols \<and> \<not> hasParent (cols ! fc) child_2 \<Longrightarrow>
   scanFirstChild cols gcs child_1 child_2 fcs acc = Inr acc"
proof (induction fcs)
  case Nil
  then show ?case by simp
next
  case (Cons fc fcs)
  from Cons.prems have "scanSecondChild cols child_1 fc (gcs ! child_2) (fst acc, fst (snd acc)) =
      Inr (fst acc, fst (snd acc))"
    by (intro scanSecondChild_none) auto
  with Cons show ?case
    by (cases acc) (simp add: vec_at_def)
qed

lemma findColorWithParents_none:
  "\<forall>c \<in> set cs. c < length cols \<and> \<not> (hasParent (cols ! c) parent_1 \<and> hasParent (cols ! c) parent_2) \<Longrightarrow>
   findColorWithParents cols parent_1 parent_2 cs = Inr SIZE_MAX"
  by (induction cs) (auto simp: vec_at_def)

lemma paintParents_sorted_exact:
  assumes "colorsInv st" and "g < length (gateColors st)"
  shows "\<exists>st'. paintParents g (sortedParents a b c) st = Inr st' \<and>
           paintsTriple g (sortedParents a b c) st st' \<and>
           colorsInv st' \<and> length (gateColors st') = length (gateColors st)"
proof -
  from paintParents_exact [OF assms, of "sortedParents a b c"] obtain st'
    where run: "paintParents g (sortedParents a b c) st = Inr st'"
      and tr: "paintsTriple g (sortedParents a b c) st st'"
    by auto
  from paintParents_paints [OF _ _ run] obtain x where "paints g [x] st st'"
    by auto
  with assms(1) have "colorsInv st'" "length (gateColors st') = length (gateColors st)"
    by (simp_all add: paints_def)
  with run tr show ?thesis
    by blast
qed


section \<open>The constructor completes on valid inputs\<close>

lemma gateStep_ready:
  assumes "gateStep g cs st st'" and "ready n st"
  shows "ready n st'"
proof -
  from assms have gc: "gateColors st' = (gateColors st)[g := gateColors st ! g @ cs]"
    and len: "length (colors st) \<le> length (colors st')"
    and cs: "set cs \<subseteq> {..<length (colors st')}"
    and inv: "colorsInv st'" and nu: "length (negationUsers st') = n"
    and n: "length (gateColors st) = n" and ids: "idsInv st"
    by (simp_all add: gateStep_def ready_def)
  have "c < length (colors st')" if "xs \<in> set (gateColors st')" and "c \<in> set xs" for xs c
  proof (cases "g < length (gateColors st)")
    case True
    from that(1) have "xs \<in> insert (gateColors st ! g @ cs) (set (gateColors st))"
      unfolding gc using set_update_subset_insert by fastforce
    moreover have "gateColors st ! g \<in> set (gateColors st)"
      using True by simp
    ultimately show ?thesis
      using that(2) ids cs len by (fastforce simp: idsInv_def)
  next
    case False
    then have "length (gateColors st) \<le> g"
      by simp
    then have "gateColors st' = gateColors st"
      unfolding gc by (rule list_update_beyond)
    with that ids len show ?thesis
      by (fastforce simp: idsInv_def)
  qed
  with inv nu n gc show ?thesis
    by (simp add: ready_def idsInv_def)
qed

lemma paintsTwo_ready: "paintsTwo g st st' \<Longrightarrow> ready n st \<Longrightarrow> ready n st'"
  unfolding paintsTwo_def by (blast intro: gateStep_ready paints_gateStep)

lemma paintsOne_ready: "paintsOne g st st' \<Longrightarrow> ready n st \<Longrightarrow> ready n st'"
  by (blast intro: paintsTwo_ready paintsOne_Two)

lemma ready_ids: "ready n st \<Longrightarrow> g < n \<Longrightarrow> c \<in> set (gateColors st ! g) \<Longrightarrow> c < length (colors st)"
  by (auto simp: ready_def idsInv_def)

lemma paintGate_succeeds:
  assumes "ready n st" and "g < n" and "c < length (colors st)"
  shows "\<exists>st'. paintGate g c st = Inr st' \<and> ready n st'"
proof -
  from assms have "\<exists>st'. paintGate g c st = Inr st'"
    by (simp add: paintGate_def ready_def)
  then show ?thesis
    using assms(1) by (blast intro: paintsOne_ready paintGate_One)
qed

lemma paintParents_succeeds:
  assumes "ready n st" and "g < n"
  shows "\<exists>st'. paintParents g (sortedParents a b c) st = Inr st' \<and> ready n st'"
proof -
  from assms have "colorsInv st" "g < length (gateColors st)"
    by (simp_all add: ready_def)
  from paintParents_sorted_exact [OF this] obtain st'
    where "paintParents g (sortedParents a b c) st = Inr st'"
    by blast
  then show ?thesis
    using assms(1) by (blast intro: paintsOne_ready paintParents_One)
qed

lemma findColorWithParents_succeeds:
  "\<forall>c \<in> set cs. c < length cols \<Longrightarrow>
   \<exists>r. findColorWithParents cols parent_1 parent_2 cs = Inr r \<and> (r = SIZE_MAX \<or> r \<in> set cs)"
  by (induction cs) (auto simp: vec_at_def)

lemma scanSecondChild_succeeds:
  "\<forall>sc \<in> set scs. sc < length cols \<Longrightarrow>
   \<exists>common c13. scanSecondChild cols child_1 fc scs (common0, c130) = Inr (common, c13) \<and>
     set common \<subseteq> insert fc (set common0) \<and> (c13 = c130 \<or> c13 \<in> set scs)"
proof (induction scs arbitrary: common0 c130)
  case Nil
  then show ?case by auto
next
  case (Cons sc scs)
  then have rest: "\<forall>sc \<in> set scs. sc < length cols" and sc: "sc < length cols"
    by simp_all
  show ?case
  proof (cases "fc = sc")
    case True
    from Cons.IH [OF rest, of "common0 @ [fc]" c130] True show ?thesis
      by auto
  next
    case False
    from Cons.IH [OF rest, of common0 "if hasParent (cols ! sc) child_1 then sc else c130"] False sc
    show ?thesis
      by (auto simp: vec_at_def)
  qed
qed

lemma scanFirstChild_succeeds:
  "child_2 < length gcs \<Longrightarrow> \<forall>sc \<in> set (gcs ! child_2). sc < length cols \<Longrightarrow>
   \<forall>fc \<in> set fcs. fc < length cols \<Longrightarrow>
   \<exists>common c13 c31.
     scanFirstChild cols gcs child_1 child_2 fcs (common0, c130, c310) = Inr (common, c13, c31) \<and>
     set common \<subseteq> set fcs \<union> set common0 \<and>
     (c13 = c130 \<or> c13 \<in> set (gcs ! child_2)) \<and> (c31 = c310 \<or> c31 \<in> set fcs)"
proof (induction fcs arbitrary: common0 c130 c310)
  case Nil
  then show ?case by simp
next
  case (Cons fc fcs)
  from scanSecondChild_succeeds [OF Cons.prems(2), of child_1 fc common0 c130]
  obtain common1 c131 where
    1: "scanSecondChild cols child_1 fc (gcs ! child_2) (common0, c130) = Inr (common1, c131)"
    and c1: "set common1 \<subseteq> insert fc (set common0)" "c131 = c130 \<or> c131 \<in> set (gcs ! child_2)"
    by blast
  from Cons.prems(3) have fc: "fc < length cols" and rest: "\<forall>fc \<in> set fcs. fc < length cols"
    by simp_all
  from Cons.IH [OF Cons.prems(1,2) rest, of common1 c131
      "if hasParent (cols ! fc) child_2 then fc else c310"]
  obtain common c13 c31 where
    2: "scanFirstChild cols gcs child_1 child_2 fcs
          (common1, c131, if hasParent (cols ! fc) child_2 then fc else c310) = Inr (common, c13, c31)"
    and c2: "set common \<subseteq> set fcs \<union> set common1" "c13 = c131 \<or> c13 \<in> set (gcs ! child_2)"
      "c31 = (if hasParent (cols ! fc) child_2 then fc else c310) \<or> c31 \<in> set fcs"
    by blast
  have "scanFirstChild cols gcs child_1 child_2 (fc # fcs) (common0, c130, c310) = Inr (common, c13, c31)"
    using Cons.prems(1) fc 1 2 by (simp add: vec_at_def)
  moreover have "set common \<subseteq> set (fc # fcs) \<union> set common0"
    using c1(1) c2(1) by auto
  moreover have "c13 = c130 \<or> c13 \<in> set (gcs ! child_2)"
    using c1(2) c2(2) by auto
  moreover have "c31 = c310 \<or> c31 \<in> set (fc # fcs)"
    using c2(3) by (auto split: if_splits)
  ultimately show ?case
    by blast
qed


lemma wf_gateColor: "wfTwoColoring n t \<Longrightarrow> g < n \<Longrightarrow> vec_at (gateColor t) g w = Inr (gateColor t ! g)"
  by (simp add: wfTwoColoring_def vec_at_def)

lemma wf_color:
  "wfTwoColoring n t \<Longrightarrow> g < n \<Longrightarrow> gateColor t ! g \<noteq> SIZE_MAX \<Longrightarrow>
   vec_at (TwoColoring.colors t) (gateColor t ! g) w = Inr (TwoColoring.colors t ! (gateColor t ! g))"
  by (auto simp: wfTwoColoring_def vec_at_def list_all_length)

lemma wf_parents:
  "wfTwoColoring n t \<Longrightarrow> g < n \<Longrightarrow> gateColor t ! g \<noteq> SIZE_MAX \<Longrightarrow>
   TwoColor.first_parent (TwoColoring.colors t ! (gateColor t ! g)) < n \<and>
   TwoColor.second_parent (TwoColoring.colors t ! (gateColor t ! g)) < n"
  by (auto simp: wfTwoColoring_def list_all_length)

lemma secondColor_succeeds:
  assumes rdy: "ready n st" and g: "g < n" and ch: "ch < n"
  shows "\<exists>st'. bindE (vec_at (gateColors st) ch GateColors) (\<lambda>cs.
           bindE (findColorWithParents (colors st) p1 p2 cs) (\<lambda>r.
             if r \<noteq> SIZE_MAX then paintGate g r st
             else paintParents g (sortedParents p1 p2 x) st)) = Inr st'"
proof -
  from rdy ch have at: "vec_at (gateColors st) ch GateColors = Inr (gateColors st ! ch)"
    by (simp add: vec_at_def ready_def)
  have "\<forall>c \<in> set (gateColors st ! ch). c < length (colors st)"
    using ready_ids [OF rdy ch] by blast
  from findColorWithParents_succeeds [OF this, of p1 p2] obtain r
    where find: "findColorWithParents (colors st) p1 p2 (gateColors st ! ch) = Inr r"
      and r: "r = SIZE_MAX \<or> r \<in> set (gateColors st ! ch)"
    by blast
  show ?thesis
  proof (cases "r = SIZE_MAX")
    case True
    with paintParents_succeeds [OF rdy g, of p1 p2 x] at find show ?thesis
      by auto
  next
    case False
    with r have "r < length (colors st)"
      using ready_ids [OF rdy ch] by blast
    from paintGate_succeeds [OF rdy g this] False at find show ?thesis
      by auto
  qed
qed

lemma paintType13_succeeds:
  assumes rdy: "ready n st" and wf: "wfTwoColoring n t" and g: "g < n"
    and ch: "child_1 < n" "child_2 < n" and c: "c13 < length (colors st)"
  shows "\<exists>st'. paintType13 t g child_1 child_2 c13 st = Inr st'"
proof -
  from paintGate_succeeds [OF rdy g c] obtain st1
    where 1: "paintGate g c13 st = Inr st1" and rdy1: "ready n st1"
    by blast
  show ?thesis
  proof (cases "gateColor t ! child_1 = SIZE_MAX")
    case True
    with 1 show ?thesis
      by (simp add: paintType13_def wf_gateColor [OF wf ch(1)])
  next
    case False
    from secondColor_succeeds [OF rdy1 g ch(2)] False 1 show ?thesis
      by (simp add: paintType13_def wf_gateColor [OF wf ch(1)] wf_color [OF wf ch(1)])
  qed
qed

lemma paintType31_succeeds:
  assumes rdy: "ready n st" and wf: "wfTwoColoring n t" and g: "g < n"
    and ch: "child_1 < n" "child_2 < n" and c: "c31 < length (colors st)"
  shows "\<exists>st'. paintType31 t g child_1 child_2 c31 st = Inr st'"
proof -
  from paintGate_succeeds [OF rdy g c] obtain st1
    where 1: "paintGate g c31 st = Inr st1" and rdy1: "ready n st1"
    by blast
  show ?thesis
  proof (cases "gateColor t ! child_2 = SIZE_MAX")
    case True
    with 1 show ?thesis
      by (simp add: paintType31_def wf_gateColor [OF wf ch(2)])
  next
    case False
    from secondColor_succeeds [OF rdy1 g ch(1)] False 1 show ?thesis
      by (simp add: paintType31_def wf_gateColor [OF wf ch(2)] wf_color [OF wf ch(2)])
  qed
qed

lemma paintType22_succeeds:
  assumes rdy: "ready n st" and wf: "wfTwoColoring n t" and g: "g < n"
    and ch: "child_1 < n" "child_2 < n"
    and colored: "gateColor t ! child_1 \<noteq> SIZE_MAX" "gateColor t ! child_2 \<noteq> SIZE_MAX"
  shows "\<exists>st'. paintType22 t g child_1 child_2 (gateColor t ! child_1) (gateColor t ! child_2) st = Inr st'"
proof -
  have two: "\<exists>st'. bindE (paintParents g (sortedParents a b c) st)
      (paintParents g (sortedParents d e f)) = Inr st'" for a b c d e f
  proof -
    from paintParents_succeeds [OF rdy g, of a b c] obtain st1
      where 1: "paintParents g (sortedParents a b c) st = Inr st1" and rdy1: "ready n st1"
      by blast
    from paintParents_succeeds [OF rdy1 g, of d e f] 1 show ?thesis
      by auto
  qed
  have one: "\<exists>st'. paintParents g (sortedParents a b c) st = Inr st'" for a b c
    using paintParents_succeeds [OF rdy g, of a b c] by blast
  show ?thesis
    using one two
    by (simp add: paintType22_def Let_def wf_color [OF wf ch(1) colored(1)]
          wf_color [OF wf ch(2) colored(2)])
qed

lemma paintFallback_succeeds:
  assumes rdy: "ready n st" and wf: "wfTwoColoring n t" and g: "g < n"
    and ch: "child_1 < n" "child_2 < n"
    and colored: "gateColor t ! child_1 \<noteq> SIZE_MAX \<or> gateColor t ! child_2 \<noteq> SIZE_MAX"
  shows "\<exists>st'. paintFallback t g child_1 child_2 (gateColor t ! child_1) (gateColor t ! child_2) st = Inr st'"
proof -
  have one: "\<exists>st'. paintParents g (sortedParents a b c) st = Inr st'" for a b c
    using paintParents_succeeds [OF rdy g, of a b c] by blast
  show ?thesis
  proof (cases "gateColor t ! child_1 = SIZE_MAX")
    case True
    with colored have "gateColor t ! child_2 \<noteq> SIZE_MAX"
      by simp
    with True one show ?thesis
      by (simp add: paintFallback_def wf_color [OF wf ch(2)])
  next
    case False
    with one show ?thesis
      by (simp add: paintFallback_def wf_color [OF wf ch(1)])
  qed
qed


lemma findVia_succeeds:
  assumes rdy: "ready n st" and wf: "wfTwoColoring n t" and ch: "ch < n" and other: "other < n"
  shows "\<exists>r. (if gateColor t ! other \<noteq> SIZE_MAX then
                bindE (vec_at (TwoColoring.colors t) (gateColor t ! other) TwoColoringColors) (\<lambda>tc.
                bindE (vec_at (gateColors st) ch GateColors) (\<lambda>cs.
                  findColorWithParents (colors st) (TwoColor.first_parent tc) (TwoColor.second_parent tc) cs))
              else Inr SIZE_MAX) = Inr r \<and>
             (r = SIZE_MAX \<or> r < length (colors st))"
proof (cases "gateColor t ! other = SIZE_MAX")
  case True
  then show ?thesis
    by simp
next
  case False
  let ?tc = "TwoColoring.colors t ! (gateColor t ! other)"
  from rdy ch have at: "vec_at (gateColors st) ch GateColors = Inr (gateColors st ! ch)"
    by (simp add: vec_at_def ready_def)
  have ids: "\<forall>c \<in> set (gateColors st ! ch). c < length (colors st)"
    using ready_ids [OF rdy ch] by blast
  from findColorWithParents_succeeds [OF ids, of "TwoColor.first_parent ?tc" "TwoColor.second_parent ?tc"]
  obtain r where "findColorWithParents (colors st) (TwoColor.first_parent ?tc)
      (TwoColor.second_parent ?tc) (gateColors st ! ch) = Inr r"
    and "r = SIZE_MAX \<or> r \<in> set (gateColors st ! ch)"
    by blast
  with False ids at show ?thesis
    by (auto simp: wf_color [OF wf other])
qed

lemma paintSingle_succeeds:
  assumes rdy: "ready n st" and wf: "wfTwoColoring n t" and g: "g < n"
    and ch: "child_1 < n" "child_2 < n"
    and colored: "gateColor t ! child_1 \<noteq> SIZE_MAX \<or> gateColor t ! child_2 \<noteq> SIZE_MAX"
  shows "\<exists>st'. paintSingle t g child_1 child_2 st = Inr st'"
proof -
  from findVia_succeeds [OF rdy wf ch(1) ch(2)] obtain r32 where
    f32: "(if gateColor t ! child_2 \<noteq> SIZE_MAX then
            bindE (vec_at (TwoColoring.colors t) (gateColor t ! child_2) TwoColoringColors) (\<lambda>tc.
            bindE (vec_at (gateColors st) child_1 GateColors) (\<lambda>cs.
              findColorWithParents (colors st) (TwoColor.first_parent tc) (TwoColor.second_parent tc) cs))
          else Inr SIZE_MAX) = Inr r32"
    and r32: "r32 = SIZE_MAX \<or> r32 < length (colors st)"
    by blast
  from findVia_succeeds [OF rdy wf ch(2) ch(1)] obtain r23 where
    f23: "(if gateColor t ! child_1 \<noteq> SIZE_MAX then
            bindE (vec_at (TwoColoring.colors t) (gateColor t ! child_1) TwoColoringColors) (\<lambda>tc.
            bindE (vec_at (gateColors st) child_2 GateColors) (\<lambda>cs.
              findColorWithParents (colors st) (TwoColor.first_parent tc) (TwoColor.second_parent tc) cs))
          else Inr SIZE_MAX) = Inr r23"
    and r23: "r23 = SIZE_MAX \<or> r23 < length (colors st)"
    by blast
  have unfold: "paintSingle t g child_1 child_2 st =
      (if r32 \<noteq> SIZE_MAX then paintGate g r32 st
       else if r23 \<noteq> SIZE_MAX then paintGate g r23 st
       else if gateColor t ! child_1 \<noteq> SIZE_MAX \<and> gateColor t ! child_2 \<noteq> SIZE_MAX
       then paintType22 t g child_1 child_2 (gateColor t ! child_1) (gateColor t ! child_2) st
       else paintFallback t g child_1 child_2 (gateColor t ! child_1) (gateColor t ! child_2) st)"
    unfolding paintSingle_def
    by (simp only: wf_gateColor [OF wf ch(1)] wf_gateColor [OF wf ch(2)] bindE_Inr f32 f23)
  show ?thesis
    unfolding unfold
    using r32 r23 paintGate_succeeds [OF rdy g, of r32] paintGate_succeeds [OF rdy g, of r23]
      paintType22_succeeds [OF rdy wf g ch] paintFallback_succeeds [OF rdy wf g ch colored]
    by auto
qed

lemma paintBinary_succeeds:
  assumes rdy: "ready n st" and wf: "wfTwoColoring n t" and g: "g < n"
    and ch: "child_1 < n" "child_2 < n"
    and colored: "gateColor t ! child_1 \<noteq> SIZE_MAX \<or> gateColor t ! child_2 \<noteq> SIZE_MAX"
  shows "\<exists>st'. paintBinary t g child_1 child_2 st = Inr st'"
proof -
  from rdy ch have at: "vec_at (gateColors st) child_1 GateColors = Inr (gateColors st ! child_1)"
    and len2: "child_2 < length (gateColors st)"
    by (simp_all add: vec_at_def ready_def)
  have ids1: "\<forall>c \<in> set (gateColors st ! child_1). c < length (colors st)"
    using ready_ids [OF rdy ch(1)] by blast
  have ids2: "\<forall>c \<in> set (gateColors st ! child_2). c < length (colors st)"
    using ready_ids [OF rdy ch(2)] by blast
  from scanFirstChild_succeeds [OF len2 ids2 ids1, of child_1 "[]" SIZE_MAX SIZE_MAX]
  obtain common c13 c31 where
    scan: "scanFirstChild (colors st) (gateColors st) child_1 child_2 (gateColors st ! child_1)
        ([], SIZE_MAX, SIZE_MAX) = Inr (common, c13, c31)"
    and common: "set common \<subseteq> set (gateColors st ! child_1)"
    and c13: "c13 = SIZE_MAX \<or> c13 \<in> set (gateColors st ! child_2)"
    and c31: "c31 = SIZE_MAX \<or> c31 \<in> set (gateColors st ! child_1)"
    by auto
  have v13: "c13 < length (colors st)" if "c13 \<noteq> SIZE_MAX"
    using that c13 ids2 by blast
  have v31: "c31 < length (colors st)" if "c31 \<noteq> SIZE_MAX"
    using that c31 ids1 by blast
  have vcommon: "common ! i < length (colors st)" if "i < length common" for i
    using that common ids1 nth_mem by blast
  have unfold: "paintBinary t g child_1 child_2 st =
      (if length common = 2 then
         bindE (paintGate g (common ! 0) st) (paintGate g (common ! 1))
       else if length common = 1 then
         bindE (paintGate g (common ! 0) st) (\<lambda>st1.
           if c13 \<noteq> SIZE_MAX then paintGate g c13 st1
           else if c31 \<noteq> SIZE_MAX then paintGate g c31 st1
           else Inr st1)
       else if c13 \<noteq> SIZE_MAX then paintType13 t g child_1 child_2 c13 st
       else if c31 \<noteq> SIZE_MAX then paintType31 t g child_1 child_2 c31 st
       else paintSingle t g child_1 child_2 st)"
    unfolding paintBinary_def by (simp only: at scan bindE_Inr Let_def fst_conv snd_conv)
  have after: "\<exists>st'. bindE (paintGate g (common ! 0) st) f = Inr st'"
    if "0 < length common" and "\<And>st1. ready n st1 \<Longrightarrow> length (colors st) \<le> length (colors st1) \<Longrightarrow> \<exists>st'. f st1 = Inr st'" for f
  proof -
    from paintGate_succeeds [OF rdy g vcommon [OF that(1)]] obtain st1
      where 1: "paintGate g (common ! 0) st = Inr st1" and rdy1: "ready n st1"
      by blast
    from paintGate_paints [OF 1] have "length (colors st) \<le> length (colors st1)"
      by (simp add: paints_def)
    from that(2) [OF rdy1 this] 1 show ?thesis
      by auto
  qed
  consider (two) "length common = 2" | (one) "length common = 1"
    | (other) "length common \<noteq> 2" "length common \<noteq> 1"
    by blast
  then show ?thesis
  proof cases
    case two
    have "\<exists>st'. bindE (paintGate g (common ! 0) st) (paintGate g (common ! 1)) = Inr st'"
    proof (rule after)
      show "0 < length common"
        using two by simp
      fix st1
      assume "ready n st1" and "length (colors st) \<le> length (colors st1)"
      with paintGate_succeeds [of n st1 g "common ! 1"] vcommon [of 1] g two
      show "\<exists>st'. paintGate g (common ! 1) st1 = Inr st'"
        by fastforce
    qed
    with two show ?thesis
      unfolding unfold by simp
  next
    case one
    have "\<exists>st'. bindE (paintGate g (common ! 0) st) (\<lambda>st1.
           if c13 \<noteq> SIZE_MAX then paintGate g c13 st1
           else if c31 \<noteq> SIZE_MAX then paintGate g c31 st1
           else Inr st1) = Inr st'"
    proof (rule after)
      show "0 < length common"
        using one by simp
      fix st1
      assume "ready n st1" and "length (colors st) \<le> length (colors st1)"
      then have later: "\<exists>st'. paintGate g c st1 = Inr st'" if "c < length (colors st)" for c
        using paintGate_succeeds [of n st1 g c] g that by fastforce
      show "\<exists>st'. (if c13 \<noteq> SIZE_MAX then paintGate g c13 st1
           else if c31 \<noteq> SIZE_MAX then paintGate g c31 st1
           else Inr st1) = Inr st'"
        using later [of c13] later [of c31] v13 v31 by (cases "c13 = SIZE_MAX"; cases "c31 = SIZE_MAX") simp_all
    qed
    with one show ?thesis
      unfolding unfold by simp
  next
    case other
    with v13 v31 paintType13_succeeds [OF rdy wf g ch, of c13] paintType31_succeeds [OF rdy wf g ch, of c31]
      paintSingle_succeeds [OF rdy wf g ch colored]
    show ?thesis
      unfolding unfold by auto
  qed
qed

lemma processBinary_succeeds:
  assumes rdy: "ready n st" and wf: "wfTwoColoring n t" and g: "g < n"
  shows "\<exists>st'. processBinary t g st = Inr st'"
proof (cases "gateColor t ! g = SIZE_MAX")
  case True
  then show ?thesis
    by (simp add: processBinary_def wf_gateColor [OF wf g])
next
  case False
  let ?tc = "TwoColoring.colors t ! (gateColor t ! g)"
  from wf_parents [OF wf g False] have ch: "TwoColor.first_parent ?tc < n" "TwoColor.second_parent ?tc < n"
    by simp_all
  show ?thesis
  proof (cases "gateColor t ! TwoColor.first_parent ?tc = SIZE_MAX \<and>
                gateColor t ! TwoColor.second_parent ?tc = SIZE_MAX")
    case True
    with False show ?thesis
      by (simp add: processBinary_def Let_def wf_gateColor [OF wf g] wf_color [OF wf g]
            wf_gateColor [OF wf ch(1)] wf_gateColor [OF wf ch(2)])
  next
    case colored: False
    then have "gateColor t ! TwoColor.first_parent ?tc \<noteq> SIZE_MAX \<or>
        gateColor t ! TwoColor.second_parent ?tc \<noteq> SIZE_MAX"
      by simp
    from paintBinary_succeeds [OF rdy wf g ch this] False colored show ?thesis
      by (auto simp: processBinary_def Let_def wf_gateColor [OF wf g] wf_color [OF wf g]
            wf_gateColor [OF wf ch(1)] wf_gateColor [OF wf ch(2)])
  qed
qed


lemma processUnary_succeeds:
  assumes rdy: "ready n st" and g: "g < n" and a: "a < n" "a \<noteq> g"
  shows "\<exists>st'. processUnary circuit g a st = Inr st'"
proof -
  from rdy g a have len: "g < length (gateColors st)" "a < length (gateColors st)"
    "a < length (negationUsers st)"
    by (simp_all add: ready_def)
  have ids: "\<forall>c \<in> set (gateColors st ! a). c < length (colors st)"
    using ready_ids [OF rdy a(1)] by blast
  show ?thesis
    using len a(2) by (simp add: processUnary_def vec_at_def paintAll_ok [OF len(1) ids])
qed

lemma processGate_succeeds:
  assumes rdy: "ready n st" and wf: "wfTwoColoring n t" and g: "g < n"
    and ops: "list_all (\<lambda>a. a < n \<and> a \<noteq> g) (getGateOperands circuit g)"
    and small: "length (getGateOperands circuit g) \<le> 2"
  shows "\<exists>st'. processGate circuit t g st = Inr st' \<and> ready n st'"
proof -
  have "\<exists>st'. processGate circuit t g st = Inr st'"
    using ops small processUnary_succeeds [OF rdy g, of _ circuit] processBinary_succeeds [OF rdy wf g]
    by (auto simp: processGate_cases split: list.splits)
  then obtain st' where run: "processGate circuit t g st = Inr st'"
    by blast
  from processGate_step [OF this] rdy have "ready n st'"
    by (blast intro: gateStep_ready)
  with run show ?thesis
    by blast
qed

lemma processGate_nonbinary:
  "2 < length (getGateOperands circuit g) \<Longrightarrow> processGate circuit t g st = Inl (NonBinaryGate g)"
  by (auto simp: processGate_cases split: list.splits)

lemma processGates_result:
  assumes "ready n st" and "wfTwoColoring n t"
    and "\<forall>g \<in> set gs. g < n \<and> list_all (\<lambda>a. a < n \<and> a \<noteq> g) (getGateOperands circuit g)"
  shows "case find (\<lambda>g. 2 < length (getGateOperands circuit g)) gs of
           None \<Rightarrow> \<exists>st'. processGates circuit t gs st = Inr st' \<and> ready n st'
         | Some g \<Rightarrow> processGates circuit t gs st = Inl (NonBinaryGate g)"
  using assms
proof (induction gs arbitrary: st)
  case Nil
  then show ?case by simp
next
  case (Cons g gs)
  show ?case
  proof (cases "2 < length (getGateOperands circuit g)")
    case True
    then show ?thesis
      by (simp add: processGate_nonbinary)
  next
    case False
    then have "length (getGateOperands circuit g) \<le> 2"
      by simp
    with processGate_succeeds [OF Cons.prems(1,2), of g circuit] Cons.prems(3)
    obtain st1 where 1: "processGate circuit t g st = Inr st1" and rdy1: "ready n st1"
      by auto
    from Cons.IH [OF rdy1 Cons.prems(2)] Cons.prems(3) False 1 show ?thesis
      by (auto split: option.splits)
  qed
qed

lemma find_Some_set: "find P xs = Some x \<Longrightarrow> x \<in> set xs \<and> P x"
  by (induction xs) (auto split: if_splits)

lemma ready_initial: "ready n (initialColoring n)"
  using colorsInv_initial [of n] by (simp add: ready_def idsInv_def initialColoring_def)

lemma validCircuit_set:
  assumes "validCircuit circuit gate_sorting"
  shows "set gate_sorting = {..<getNumberOfGates circuit}"
proof -
  from assms have "set gate_sorting \<subseteq> {..<getNumberOfGates circuit}"
    by (auto simp: validCircuit_def list_all_iff)
  moreover from assms have "card (set gate_sorting) = getNumberOfGates circuit"
    by (simp add: validCircuit_def distinct_card)
  ultimately show ?thesis
    by (simp add: card_subset_eq)
qed

lemma ThreeColoring_result:
  assumes valid: "validCircuit circuit gate_sorting"
    and wf: "wfTwoColoring (getNumberOfGates circuit) twoColoring"
  shows "case find (\<lambda>g. 2 < length (getGateOperands circuit g)) (rev gate_sorting) of
           None \<Rightarrow> \<exists>st. ThreeColoring circuit gate_sorting twoColoring = Inr st \<and>
                    ready (getNumberOfGates circuit) st
         | Some g \<Rightarrow> ThreeColoring circuit gate_sorting twoColoring = Inl (NonBinaryGate g)"
  unfolding ThreeColoring_def
  using valid by (intro processGates_result ready_initial wf) (auto simp: validCircuit_def list_all_iff)


section \<open>Facts about the database reader\<close>

lemma read_vector_numeral:
  "read_vector rd v (numeral k) s =
     (let r = rd v s; rest = read_vector rd v (pred_numeral k) (snd r) in (fst r # fst rest, snd rest))"
  by (simp add: numeral_eq_Suc)

lemma read_vector_one:
  "read_vector rd v 1 s = (let r = rd v s in ([fst r], snd r))"
  by (simp add: Let_def)

lemma parse_gates_stop: "\<not> i \<le> m \<Longrightarrow> parse_gates conv s i m acc = Inr (s, acc)"
  by (simp add: parse_gates.simps [of conv s i m acc])

lemma parse_gates_unfold:
  "i \<le> m \<Longrightarrow> parse_gates conv s i m acc =
     (case parse_gate conv s m acc of
        Inl e \<Rightarrow> Inl e
      | Inr r \<Rightarrow>
          if i = SIZE_MAX then Inl GateCounterWraps
          else parse_gates conv (fst r) (i + 1) (fst (snd r)) (snd (snd r)))"
  by (simp add: parse_gates.simps [of conv s i m acc])

lemma read_records_stop: "snd (read_size_t 0 s) = None \<Longrightarrow> read_records conv s db idx = Inr db"
  by (simp add: read_records.simps [of conv s db idx])

lemma read_records_unfold:
  "snd (read_size_t 0 s) \<noteq> None \<Longrightarrow> read_records conv s db idx =
     (case read_record conv (fst (read_size_t 0 s)) (snd (read_size_t 0 s)) db idx of
        Inl e \<Rightarrow> Inl e
      | Inr next \<Rightarrow> read_records conv (fst next) (snd next) (idx + 1))"
  by (auto simp: read_records.simps [of conv s db idx] Let_def)

lemmas db_eval = read_db_def read_records_stop read_records_unfold read_record_def
  parse_gates_stop parse_gates_unfold parse_gate_def
  read_size_t_def read_int32_def read_string_def read_vector_numeral read_vector_one
  size_t_of_token_def int32_of_token_def is_numeral_def nat_of_numeral_def digit_of_char_def
  basicGateType_def empty_db_def initial_gates_def Let_def SIZE_MAX_def

lemma ex_db_run: "read_db basicGateType (Some ex_db_tokens) = Inr ex_db"
  by (simp add: db_eval ex_db_tokens_def ex_db_def)

lemma extract_good: "parse t = Good x \<Longrightarrow> stream_extract parse v (Some (t # ts)) = (x, Some ts)"
  by simp

lemma read_vector_good:
  "list_all (\<lambda>p. is_good (parse p)) ps \<Longrightarrow>
   read_vector (stream_extract parse) d (length ps) (Some (ps @ rest)) =
     (map (\<lambda>p. extracted_value (parse p)) ps, Some rest)"
proof (induction ps)
  case Nil
  then show ?case by simp
next
  case (Cons p ps)
  then obtain v where "parse p = Good v"
    by (cases "parse p") (simp_all add: is_good_def)
  with Cons show ?case
    by (simp add: Let_def extracted_value_def)
qed

text \<open>What a record does to the stream and to the other tables does not depend on the
  database read so far.\<close>

lemma read_record_cases:
  "read_record conv n s db idx =
     (case parse_gates conv
             (snd (read_vector read_size_t 0 (fst (read_size_t 0 s))
                (snd (read_vector read_int32 0 (fst (read_size_t 0 s)) (snd (read_size_t 0 s))))))
             n
             (fold max (fst (read_vector read_size_t 0 (fst (read_size_t 0 s))
                (snd (read_vector read_int32 0 (fst (read_size_t 0 s)) (snd (read_size_t 0 s)))))) 0)
             initial_gates of
        Inl e \<Rightarrow> Inl e
      | Inr r \<Rightarrow>
          Inr (fst r,
               db\<lparr> subcircuit_pattern_to_index := (subcircuit_pattern_to_index db)(pattern_key s \<mapsto> idx),
                   subcircuit_outputs := subcircuit_outputs db @
                     [fst (read_vector read_size_t 0 (fst (read_size_t 0 s))
                        (snd (read_vector read_int32 0 (fst (read_size_t 0 s)) (snd (read_size_t 0 s)))))],
                   gates_operands := gates_operands db @ [operands_of (snd r)],
                   OPER_number := OPER_number db @ [oper_count (snd r)],
                   gates_operations := gates_operations db @ [operations (snd r)] \<rparr>))"
  by (simp add: read_record_def pattern_key_def Let_def split: sum.splits)

lemma read_record_key:
  assumes "read_record conv n s db idx = Inr (s', db')"
  shows "subcircuit_pattern_to_index db' = (subcircuit_pattern_to_index db)(pattern_key s \<mapsto> idx)"
  using assms unfolding read_record_cases by (auto split: sum.splits)

lemma read_record_independent:
  assumes "read_record conv n s db idx = Inr (s', db')"
  shows "\<exists>db2'. read_record conv n s db2 idx2 = Inr (s', db2')"
  using assms unfolding read_record_cases by (auto split: sum.splits)

lemma read_record_error_independent:
  assumes "read_record conv n s db idx = Inl e"
  shows "read_record conv n s db2 idx2 = Inl e"
  using assms unfolding read_record_cases by (auto split: sum.splits)

lemma read_records_keys:
  "read_records conv s db idx = Inr dbf \<Longrightarrow>
   (K \<notin> set (record_keys conv s) \<longrightarrow>
      subcircuit_pattern_to_index dbf K = subcircuit_pattern_to_index db K) \<and>
   (\<forall>j < length (record_keys conv s).
      record_keys conv s ! j = K \<and> K \<notin> set (drop (Suc j) (record_keys conv s)) \<longrightarrow>
      subcircuit_pattern_to_index dbf K = Some (idx + int j))"
proof (induction conv s db idx rule: read_records.induct)
  case (1 conv s db idx)
  let ?r = "read_size_t 0 s"
  show ?case
  proof (cases "snd ?r = None")
    case True
    with "1.prems" have "dbf = db" "record_keys conv s = []"
      by (simp_all add: read_records.simps [of conv s db idx] record_keys.simps [of conv s])
    then show ?thesis
      by simp
  next
    case False
    with "1.prems" obtain nxt where rec: "read_record conv (fst ?r) (snd ?r) db idx = Inr nxt"
      and rest: "read_records conv (fst nxt) (snd nxt) (idx + 1) = Inr dbf"
      by (auto simp: read_records.simps [of conv s db idx] Let_def split: sum.splits)
    from rec have rec': "read_record conv (fst ?r) (snd ?r) db idx = Inr (fst nxt, snd nxt)"
      by simp
    from read_record_independent [OF rec', of empty_db 0] obtain db0
      where rec0: "read_record conv (fst ?r) (snd ?r) empty_db 0 = Inr (fst nxt, db0)"
      by blast
    have keys: "record_keys conv s = pattern_key (snd ?r) # record_keys conv (fst nxt)"
      using False rec0 by (simp add: record_keys.simps [of conv s] Let_def)
    have map1: "subcircuit_pattern_to_index (snd nxt) =
        (subcircuit_pattern_to_index db)(pattern_key (snd ?r) \<mapsto> idx)"
      using rec' by (rule read_record_key)
    from "1.IH" [OF refl False rec rest]
    have IH1: "K \<notin> set (record_keys conv (fst nxt)) \<Longrightarrow>
        subcircuit_pattern_to_index dbf K = subcircuit_pattern_to_index (snd nxt) K"
      and IH2: "\<And>j. j < length (record_keys conv (fst nxt)) \<Longrightarrow>
        record_keys conv (fst nxt) ! j = K \<Longrightarrow>
        K \<notin> set (drop (Suc j) (record_keys conv (fst nxt))) \<Longrightarrow>
        subcircuit_pattern_to_index dbf K = Some (idx + 1 + int j)"
      by blast+
    show ?thesis
    proof (intro conjI impI allI)
      assume "K \<notin> set (record_keys conv s)"
      with keys IH1 map1 show "subcircuit_pattern_to_index dbf K = subcircuit_pattern_to_index db K"
        by simp
    next
      fix j
      assume j: "j < length (record_keys conv s)"
        and last: "record_keys conv s ! j = K \<and> K \<notin> set (drop (Suc j) (record_keys conv s))"
      show "subcircuit_pattern_to_index dbf K = Some (idx + int j)"
      proof (cases j)
        case 0
        with last keys have "K = pattern_key (snd ?r)" "K \<notin> set (record_keys conv (fst nxt))"
          by simp_all
        with IH1 map1 0 show ?thesis
          by simp
      next
        case (Suc j')
        with j last keys IH2 [of j'] show ?thesis
          by simp
      qed
    qed
  qed
qed

lemma fold_max_Max: "fold max xs (m::nat) = Max (set (m # xs))"
  by (rule Max.set_eq_fold [symmetric])

lemma fold_max_ge: "(m::nat) \<le> fold max xs m"
proof (induction xs arbitrary: m)
  case Nil
  then show ?case by simp
next
  case (Cons x xs)
  have "m \<le> max x m"
    by simp
  also have "\<dots> \<le> fold max xs (max x m)"
    by (rule Cons.IH)
  finally show ?case
    by simp
qed

lemma parse_gate_effect:
  assumes "parse_gate conv s m acc = Inr (s', m', acc')"
  shows "\<exists>ops. operands_of acc' = operands_of acc @ [ops] \<and> m' = fold max ops m \<and>
           length (operations acc') = Suc (length (operations acc))"
  using assms by (auto simp: parse_gate_def Let_def split: option.splits if_splits)

lemma parse_gates_count:
  "parse_gates conv s i m acc = Inr (s', acc') \<Longrightarrow>
   \<exists>new. operands_of acc' = operands_of acc @ new \<and>
     length (operations acc') = length (operations acc) + length new \<and>
     length new = Suc (fold max (concat new) m) - i"
proof (induction conv s i m acc rule: parse_gates.induct)
  case (1 conv s i m acc)
  show ?case
  proof (cases "i \<le> m")
    case False
    with "1.prems" have "acc' = acc"
      by (simp add: parse_gates.simps [of conv s i m acc])
    with False show ?thesis
      by simp
  next
    case True
    with "1.prems" obtain r where step: "parse_gate conv s m acc = Inr r" and i: "i \<noteq> SIZE_MAX"
      and rest: "parse_gates conv (fst r) (i + 1) (fst (snd r)) (snd (snd r)) = Inr (s', acc')"
      by (auto simp: parse_gates.simps [of conv s i m acc] split: sum.splits if_splits)
    from step have "parse_gate conv s m acc = Inr (fst r, fst (snd r), snd (snd r))"
      by simp
    from parse_gate_effect [OF this] obtain ops where
      ops: "operands_of (snd (snd r)) = operands_of acc @ [ops]" "fst (snd r) = fold max ops m"
        "length (operations (snd (snd r))) = Suc (length (operations acc))"
      by blast
    from "1.IH" [OF True step i rest] obtain new where
      new: "operands_of acc' = operands_of (snd (snd r)) @ new"
        "length (operations acc') = length (operations (snd (snd r))) + length new"
        "length new = Suc (fold max (concat new) (fst (snd r))) - (i + 1)"
      by blast
    have top: "fold max (concat (ops # new)) m = fold max (concat new) (fold max ops m)"
      by simp
    have "i \<le> fold max (concat new) (fold max ops m)"
      using True fold_max_ge [of m ops] fold_max_ge [of "fold max ops m" "concat new"] by linarith
    with new(3) ops(2) have "length (ops # new) = Suc (fold max (concat (ops # new)) m) - i"
      unfolding top by simp
    with new ops have "operands_of acc' = operands_of acc @ (ops # new) \<and>
        length (operations acc') = length (operations acc) + length (ops # new) \<and>
        length (ops # new) = Suc (fold max (concat (ops # new)) m) - i"
      by simp
    then show ?thesis
      by blast
  qed
qed

lemma record_keys_stop: "snd (read_size_t 0 s) = None \<Longrightarrow> record_keys conv s = []"
  by (simp add: record_keys.simps [of conv s])

lemma record_keys_unfold:
  "snd (read_size_t 0 s) \<noteq> None \<Longrightarrow> record_keys conv s =
     (case read_record conv (fst (read_size_t 0 s)) (snd (read_size_t 0 s)) empty_db 0 of
        Inl e \<Rightarrow> []
      | Inr next \<Rightarrow> pattern_key (snd (read_size_t 0 s)) # record_keys conv (fst next))"
  by (auto simp: record_keys.simps [of conv s] Let_def)

lemma ex_forward_run: "read_db basicGateType (Some ex_forward_tokens) = Inr ex_forward_db"
  by (simp add: db_eval ex_forward_tokens_def ex_forward_db_def)

lemma ex_forward_record:
  "read_record basicGateType 2 (Some (tl ex_forward_tokens)) empty_db 0 = Inr (Some [], ex_forward_db)"
  by (simp add: db_eval ex_forward_tokens_def ex_forward_db_def)

lemma ex_db_record:
  "read_record basicGateType 2 (Some (tl ex_db_tokens)) empty_db 0 = Inr (Some [], ex_db)"
  by (simp add: db_eval ex_db_tokens_def ex_db_def)

lemma ex_dup_run: "read_db basicGateType (Some ex_dup_tokens) = Inr ex_dup_db"
  by (simp add: db_eval ex_dup_tokens_def ex_dup_db_def)

lemma ex_dup_keys: "record_keys basicGateType (Some ex_dup_tokens) = [[8], [8]]"
  by (simp add: db_eval record_keys_stop record_keys_unfold pattern_key_def ex_dup_tokens_def)


section \<open>Evaluating the example\<close>

lemmas eval_defs = ThreeColoring_def initialColoring_def processGate_def processUnary_def
  processBinary_def paintBinary_def paintSingle_def paintType13_def paintType31_def paintType22_def
  paintFallback_def paintParents_def paintGate_def addColor_def map_index_def vec_at_def
  ThreeColor_def sortedParents_def addGate_def hasParent_def TwoColor_hasParent_def Let_def

lemma replicate_8: "replicate 8 x = [x, x, x, x, x, x, x, x]"
  by (simp add: eval_nat_numeral)

lemma ex_run: "ThreeColoring ex_circuit ex_sorting ex_twoColoring = Inr ex_result"
  by (simp add: eval_defs ex_circuit_def ex_sorting_def ex_twoColoring_def ex_result_def
        SIZE_MAX_def replicate_8)


section \<open>Verified properties\<close>

text \<open>
  C1. When the constructor of \<open>ThreeColoring\<close> completes on a circuit whose sort lists no
  gate twice, the table \<open>gateColors\<close> has one entry per gate and every entry holds at
  most two ColorIds.
\<close>

theorem gateColors_at_most_two:
  assumes "distinct gate_sorting"
    and "ThreeColoring circuit gate_sorting twoColoring = Inr st"
  shows "length (gateColors st) = getNumberOfGates circuit \<and>
         (\<forall>g < getNumberOfGates circuit. length (gateColors st ! g) \<le> 2)"
proof -
  let ?init = "initialColoring (getNumberOfGates circuit)"
  have run: "processGates circuit twoColoring (rev gate_sorting) ?init = Inr st"
    using assms(2) by (simp add: ThreeColoring_def)
  have "atMostTwo ?init"
    by (simp add: atMostTwo_def initialColoring_def)
  moreover have "\<forall>g \<in> set (rev gate_sorting). g < length (gateColors ?init) \<longrightarrow> gateColors ?init ! g = []"
    by (simp add: initialColoring_def)
  moreover have "distinct (rev gate_sorting)"
    using assms(1) by simp
  ultimately have "atMostTwo st \<and> length (gateColors st) = length (gateColors ?init)"
    using processGates_atMostTwo [OF run] by blast
  then show ?thesis
    by (simp add: atMostTwo_def initialColoring_def)
qed

theorem gateColors_at_most_two_witness:
  "distinct ex_sorting \<and> ThreeColoring ex_circuit ex_sorting ex_twoColoring = Inr ex_result \<and>
   length (gateColors ex_result) = getNumberOfGates ex_circuit \<and>
   length (gateColors ex_result ! 6) \<le> 2 \<and> length (gateColors ex_result ! 7) \<le> 2 \<and>
   gateColors ex_result ! 7 = [0, 1]"
proof -
  have d: "distinct ex_sorting"
    by (simp add: ex_sorting_def)
  have n: "getNumberOfGates ex_circuit = 8"
    by (simp add: ex_circuit_def)
  from gateColors_at_most_two [OF d ex_run] d ex_run show ?thesis
    by (simp add: n ex_result_def)
qed

text \<open>
  C5. When the constructor completes, \<open>parentsToColor\<close> is a bijection between its keys
  and the indices of \<open>colors\<close>: every key is an ascending triple and is the sorted parents
  of the color it maps to, and every index is the image of the parents of its color.
\<close>

theorem parentsToColor_bijection:
  assumes "ThreeColoring circuit gate_sorting twoColoring = Inr st"
  shows "bij_betw (\<lambda>k. the (parentsToColor st k)) (dom (parentsToColor st)) {..<length (colors st)} \<and>
         (\<forall>k c. parentsToColor st k = Some c \<longrightarrow>
            c < length (colors st) \<and> sorted k \<and> length k = 3 \<and>
            k = sortedParents (first_parent (colors st ! c)) (second_parent (colors st ! c))
                  (third_parent (colors st ! c))) \<and>
         (\<forall>c < length (colors st). parentsToColor st (getParents (colors st ! c)) = Some c)"
proof -
  have "processGates circuit twoColoring (rev gate_sorting)
          (initialColoring (getNumberOfGates circuit)) = Inr st"
    using assms by (simp add: ThreeColoring_def)
  then have inv: "colorsInv st"
    using colorsInv_initial by (rule processGates_colorsInv)
  then have map: "parentsToColor st k = Some c \<longleftrightarrow> c < length (colors st) \<and> getParents (colors st ! c) = k"
    for k c
    by (simp add: colorsInv_def)
  have srt: "sorted (getParents (colors st ! c))" if "c < length (colors st)" for c
    using inv that by (simp add: colorsInv_def)
  have key: "sorted k \<and> length k = 3 \<and>
      k = sortedParents (first_parent (colors st ! c)) (second_parent (colors st ! c))
            (third_parent (colors st ! c))"
    if "parentsToColor st k = Some c" for k c
  proof -
    from that map have c: "c < length (colors st)" and k: "getParents (colors st ! c) = k"
      by auto
    from srt [OF c] have "sort (getParents (colors st ! c)) = getParents (colors st ! c)"
      by (rule sorted_sort_id)
    with srt [OF c] k show ?thesis
      by (auto simp: sortedParents_def getParents_def)
  qed
  have "bij_betw (\<lambda>k. the (parentsToColor st k)) (dom (parentsToColor st)) {..<length (colors st)}"
    unfolding bij_betw_def
  proof
    show "inj_on (\<lambda>k. the (parentsToColor st k)) (dom (parentsToColor st))"
      by (rule inj_onI) (metis domD map option.sel)
    show "(\<lambda>k. the (parentsToColor st k)) ` dom (parentsToColor st) = {..<length (colors st)}"
    proof (intro equalityI subsetI)
      fix c
      assume "c \<in> (\<lambda>k. the (parentsToColor st k)) ` dom (parentsToColor st)"
      then obtain k c' where "parentsToColor st k = Some c'" and "c = c'"
        by auto
      with map show "c \<in> {..<length (colors st)}"
        by auto
    next
      fix c
      assume "c \<in> {..<length (colors st)}"
      then have "parentsToColor st (getParents (colors st ! c)) = Some c"
        using map by simp
      then show "c \<in> (\<lambda>k. the (parentsToColor st k)) ` dom (parentsToColor st)"
        by force
    qed
  qed
  with map key show ?thesis
    by blast
qed

theorem parentsToColor_bijection_witness:
  "ThreeColoring ex_circuit ex_sorting ex_twoColoring = Inr ex_result \<and>
   bij_betw (\<lambda>k. the (parentsToColor ex_result k)) (dom (parentsToColor ex_result))
     {..<length (colors ex_result)} \<and>
   parentsToColor ex_result [0, 1, 5] = Some 0 \<and> parentsToColor ex_result [2, 3, 4] = Some 1 \<and>
   length (colors ex_result) = 2"
  using parentsToColor_bijection [OF ex_run] ex_run by (simp add: ex_result_def)

text \<open>
  C10. A binary gate that has a TwoColor whose two parents both have no TwoColor of their
  own (both entries of the per-gate table are \<open>SIZE_MAX\<close>) ends the construction with
  an empty list of ThreeColors.
\<close>

theorem uncolored_children_no_three_color:
  assumes sorting: "distinct gate_sorting"
    and run: "ThreeColoring circuit gate_sorting twoColoring = Inr st"
    and g: "g < getNumberOfGates circuit"
    and binary: "length (getGateOperands circuit g) = 2"
    and two_color: "gateColor twoColoring ! g \<noteq> SIZE_MAX"
    and child_1: "gateColor twoColoring !
        TwoColor.first_parent (TwoColoring.colors twoColoring ! (gateColor twoColoring ! g)) = SIZE_MAX"
    and child_2: "gateColor twoColoring !
        TwoColor.second_parent (TwoColoring.colors twoColoring ! (gateColor twoColoring ! g)) = SIZE_MAX"
  shows "gateColors st ! g = []"
proof -
  let ?init = "initialColoring (getNumberOfGates circuit)"
  have init: "gateColors ?init ! g = []"
    using g by (simp add: initialColoring_def)
  have all: "processGates circuit twoColoring (rev gate_sorting) ?init = Inr st"
    using run by (simp add: ThreeColoring_def)
  show ?thesis
  proof (cases "g \<in> set (rev gate_sorting)")
    case False
    from processGates_frame [OF all False] init show ?thesis
      by simp
  next
    case True
    then obtain xs ys where split: "rev gate_sorting = xs @ g # ys"
      by (auto simp: in_set_conv_decomp)
    with sorting have notin: "g \<notin> set xs" "g \<notin> set ys"
      by (metis distinct_rev distinct_append distinct.simps(2) disjoint_iff list.set_intros(1))+
    from all obtain st1 st2 where 1: "processGates circuit twoColoring xs ?init = Inr st1"
      and 2: "processGate circuit twoColoring g st1 = Inr st2"
      and 3: "processGates circuit twoColoring ys st2 = Inr st"
      unfolding split processGates_append by (auto simp: bindE_eq_Inr)
    from 2 binary have "processBinary twoColoring g st1 = Inr st2"
      by (auto simp: processGate_cases split: list.splits)
    then have "st2 = st1"
      using two_color child_1 child_2 by (rule processBinary_skip)
    with processGates_frame [OF 1 notin(1)] processGates_frame [OF 3 notin(2)] init show ?thesis
      by simp
  qed
qed

theorem uncolored_children_no_three_color_witness:
  "distinct ex_sorting \<and> ThreeColoring ex_circuit ex_sorting ex_twoColoring = Inr ex_result \<and>
   length (getGateOperands ex_circuit 4) = 2 \<and> gateColor ex_twoColoring ! 4 = 0 \<and>
   gateColor ex_twoColoring ! 0 = SIZE_MAX \<and> gateColor ex_twoColoring ! 1 = SIZE_MAX \<and>
   gateColors ex_result ! 4 = []"
proof -
  have d: "distinct ex_sorting"
    by (simp add: ex_sorting_def)
  have "gateColors ex_result ! 4 = []"
    by (rule uncolored_children_no_three_color [OF d ex_run])
       (simp_all add: ex_circuit_def ex_twoColoring_def SIZE_MAX_def)
  with d ex_run show ?thesis
    by (simp add: ex_circuit_def ex_twoColoring_def)
qed

text \<open>
  C8. A unary gate \<open>g\<close> with operand \<open>a\<close> is painted with exactly the ColorIds that
  \<open>a\<close> carries when \<open>g\<close> is processed, in their order, and \<open>g\<close> is added to the gates
  of each of these colors. When the type of \<open>g\<close> is NOT, \<open>negationUsers[a]\<close> becomes
  \<open>g\<close>; for any other type \<open>negationUsers\<close> is unchanged. Nothing else changes.
\<close>

theorem unary_gate_inherits_colors:
  assumes operands: "getGateOperands circuit g = [a]"
    and acyclic: "a \<noteq> g"
    and g: "g < length (gateColors st)"
    and a: "a < length (gateColors st)" "a < length (negationUsers st)"
    and ids: "\<forall>c \<in> set (gateColors st ! a). c < length (colors st)"
  shows "processGate circuit twoColoring g st =
     Inr (st\<lparr> colors := fold (\<lambda>c cols. cols[c := addGate g (cols ! c)]) (gateColors st ! a) (colors st),
              gateColors := (gateColors st)[g := gateColors st ! g @ gateColors st ! a],
              negationUsers := (if getGateType circuit g = NOT then (negationUsers st)[a := g]
                                else negationUsers st) \<rparr>)"
proof -
  have "processGate circuit twoColoring g st = processUnary circuit g a st"
    by (simp add: processGate_cases operands)
  also have "\<dots> = bindE (paintAll g (gateColors st ! a) st) (\<lambda>st1.
       if getGateType circuit g = NOT then
         (if a < length (negationUsers st1)
          then Inr (st1\<lparr> negationUsers := (negationUsers st1)[a := g] \<rparr>)
          else Inl (OutOfRange NegationUsers))
       else Inr st1)"
    using a(1) acyclic by (simp add: processUnary_def vec_at_def)
  finally show ?thesis
    using a(2) by (simp add: paintAll_ok [OF g ids])
qed

theorem unary_gate_inherits_colors_witness:
  "processGate ex_circuit ex_twoColoring 7 ex_after6 = Inr ex_result \<and>
   getGateOperands ex_circuit 7 = [6] \<and> getGateType ex_circuit 7 = NOT \<and>
   gateColors ex_result ! 7 = gateColors ex_after6 ! 6 \<and> negationUsers ex_result ! 6 = 7"
  using unary_gate_inherits_colors [of ex_circuit 7 6 ex_after6 ex_twoColoring]
  by (simp add: ex_circuit_def ex_after6_def ex_result_def addGate_def)

text \<open>
  C4. A binary gate \<open>g\<close> in the 2-2 case: the children \<open>child_1\<close> and \<open>child_2\<close> of
  its TwoColor have TwoColors with parents \<open>(p1, p2)\<close> and \<open>(p3, p4)\<close>, they have no
  ThreeColor in common, and there is no 3-1, 1-3, 3-2 or 2-3 match. If \<open>(p3, p4)\<close> contains
  \<open>p1\<close> the gate is painted with the one color of the triple \<open>(p2, p3, p4)\<close>; else if
  it contains \<open>p2\<close>, with the one color of \<open>(p1, p3, p4)\<close>; otherwise with the two colors
  of \<open>(p1, p2, child_2)\<close> and \<open>(p3, p4, child_1)\<close>, in this order. Each triple is
  created only when it is not yet a key of \<open>parentsToColor\<close>.
\<close>

theorem two_two_pattern:
  assumes binary: "length (getGateOperands circuit g) = 2"
    and inv: "colorsInv st"
    and g: "g < length (gateColors st)" "g < length (gateColor t)"
    and two_color: "gateColor t ! g = two_color" "two_color \<noteq> SIZE_MAX"
      "two_color < length (TwoColoring.colors t)"
    and children: "child_1 = TwoColor.first_parent (TwoColoring.colors t ! two_color)"
      "child_2 = TwoColor.second_parent (TwoColoring.colors t ! two_color)"
      "child_1 < length (gateColor t)" "child_2 < length (gateColor t)"
      "child_1 < length (gateColors st)" "child_2 < length (gateColors st)"
    and first: "gateColor t ! child_1 = first_two_color" "first_two_color \<noteq> SIZE_MAX"
      "first_two_color < length (TwoColoring.colors t)"
      "p1 = TwoColor.first_parent (TwoColoring.colors t ! first_two_color)"
      "p2 = TwoColor.second_parent (TwoColoring.colors t ! first_two_color)"
    and second: "gateColor t ! child_2 = second_two_color" "second_two_color \<noteq> SIZE_MAX"
      "second_two_color < length (TwoColoring.colors t)"
      "p3 = TwoColor.first_parent (TwoColoring.colors t ! second_two_color)"
      "p4 = TwoColor.second_parent (TwoColoring.colors t ! second_two_color)"
    and ids: "\<forall>c \<in> set (gateColors st ! child_1) \<union> set (gateColors st ! child_2). c < length (colors st)"
    and no_common: "set (gateColors st ! child_1) \<inter> set (gateColors st ! child_2) = {}"
    and no_31: "\<forall>c \<in> set (gateColors st ! child_2). \<not> hasParent (colors st ! c) child_1"
    and no_13: "\<forall>c \<in> set (gateColors st ! child_1). \<not> hasParent (colors st ! c) child_2"
    and no_32: "\<forall>c \<in> set (gateColors st ! child_1).
        \<not> (hasParent (colors st ! c) p3 \<and> hasParent (colors st ! c) p4)"
    and no_23: "\<forall>c \<in> set (gateColors st ! child_2).
        \<not> (hasParent (colors st ! c) p1 \<and> hasParent (colors st ! c) p2)"
  shows "\<exists>st'. processGate circuit t g st = Inr st' \<and>
     (if p3 = p1 \<or> p4 = p1 then paintsTriple g (sortedParents p2 p3 p4) st st'
      else if p3 = p2 \<or> p4 = p2 then paintsTriple g (sortedParents p1 p3 p4) st st'
      else \<exists>st1. paintsTriple g (sortedParents p1 p2 child_2) st st1 \<and>
                 paintsTriple g (sortedParents p3 p4 child_1) st1 st')"
proof -
  let ?tcs = "TwoColoring.colors t"
  have scan: "scanFirstChild (colors st) (gateColors st) child_1 child_2 (gateColors st ! child_1)
      ([], SIZE_MAX, SIZE_MAX) = Inr ([], SIZE_MAX, SIZE_MAX)"
    using children(6) no_common ids no_31 no_13 by (intro scanFirstChild_none) auto
  have f32: "findColorWithParents (colors st) p3 p4 (gateColors st ! child_1) = Inr SIZE_MAX"
    using ids no_32 by (intro findColorWithParents_none) auto
  have f23: "findColorWithParents (colors st) p1 p2 (gateColors st ! child_2) = Inr SIZE_MAX"
    using ids no_23 by (intro findColorWithParents_none) auto
  have "processGate circuit t g st = processBinary t g st"
    using binary by (auto simp: processGate_cases split: list.splits)
  also have "\<dots> = paintBinary t g child_1 child_2 st"
    using g(2) two_color children(1-4) first(1,2)
    by (simp add: processBinary_def vec_at_def Let_def)
  also have "\<dots> = paintSingle t g child_1 child_2 st"
    using children(5) scan by (simp add: paintBinary_def vec_at_def Let_def)
  also have "\<dots> = paintType22 t g child_1 child_2 first_two_color second_two_color st"
    using children(3-6) first(1-3) second(1-3) f32 f23
    by (simp add: paintSingle_def vec_at_def first(4,5) [symmetric] second(4,5) [symmetric])
  finally have step: "processGate circuit t g st =
      paintType22 t g child_1 child_2 first_two_color second_two_color st" .
  have t22: "paintType22 t g child_1 child_2 first_two_color second_two_color st =
      (if p3 = p1 \<or> p4 = p1 then paintParents g (sortedParents p2 p3 p4) st
       else if p3 = p2 \<or> p4 = p2 then paintParents g (sortedParents p1 p3 p4) st
       else bindE (paintParents g (sortedParents p1 p2 child_2) st)
              (paintParents g (sortedParents p3 p4 child_1)))"
    using first(3) second(3)
    by (simp add: paintType22_def vec_at_def Let_def TwoColor_hasParent_def
          first(4,5) [symmetric] second(4,5) [symmetric])
  show ?thesis
  proof (cases "p3 = p1 \<or> p4 = p1")
    case True
    with paintParents_sorted_exact [OF inv g(1), of p2 p3 p4] show ?thesis
      unfolding step t22 by auto
  next
    case False
    show ?thesis
    proof (cases "p3 = p2 \<or> p4 = p2")
      case True
      with False paintParents_sorted_exact [OF inv g(1), of p1 p3 p4] show ?thesis
        unfolding step t22 by auto
    next
      case neither: False
      from paintParents_sorted_exact [OF inv g(1), of p1 p2 child_2] obtain st1
        where 1: "paintParents g (sortedParents p1 p2 child_2) st = Inr st1"
          and t1: "paintsTriple g (sortedParents p1 p2 child_2) st st1"
          and inv1: "colorsInv st1" and len: "length (gateColors st1) = length (gateColors st)"
        by blast
      from g(1) len have "g < length (gateColors st1)"
        by simp
      from paintParents_sorted_exact [OF inv1 this, of p3 p4 child_1] obtain st'
        where 2: "paintParents g (sortedParents p3 p4 child_1) st1 = Inr st'"
          and t2: "paintsTriple g (sortedParents p3 p4 child_1) st1 st'"
        by blast
      from False neither 1 2 t1 t2 show ?thesis
        unfolding step t22 by auto
    qed
  qed
qed

theorem two_two_pattern_witness:
  "processGate ex_circuit ex_twoColoring 6 (initialColoring 8) = Inr ex_after6 \<and>
   paintsTriple 6 [0, 1, 5] (initialColoring 8) ex_mid \<and> paintsTriple 6 [2, 3, 4] ex_mid ex_after6"
proof -
  have "\<exists>st'. processGate ex_circuit ex_twoColoring 6 (initialColoring 8) = Inr st' \<and>
     (if (2::nat) = 0 \<or> (3::nat) = 0 then paintsTriple 6 (sortedParents 1 2 3) (initialColoring 8) st'
      else if (2::nat) = 1 \<or> (3::nat) = 1 then paintsTriple 6 (sortedParents 0 2 3) (initialColoring 8) st'
      else \<exists>st1. paintsTriple 6 (sortedParents 0 1 5) (initialColoring 8) st1 \<and>
                 paintsTriple 6 (sortedParents 2 3 4) st1 st')"
    by (rule two_two_pattern
          [of ex_circuit 6 "initialColoring 8" ex_twoColoring 2 4 5 0 0 1 1 2 3,
           OF _ colorsInv_initial])
       (simp_all add: ex_circuit_def ex_twoColoring_def initialColoring_def
          SIZE_MAX_def replicate_8)
  then obtain st' st1 where run: "processGate ex_circuit ex_twoColoring 6 (initialColoring 8) = Inr st'"
    and 1: "paintsTriple 6 [0, 1, 5] (initialColoring 8) st1"
    and 2: "paintsTriple 6 [2, 3, 4] st1 st'"
    by (auto simp: sortedParents_def)
  from 1 have st1: "st1 = ex_mid"
    by (simp add: paintsTriple_def initialColoring_def ex_mid_def ThreeColor_def sortedParents_def
          addGate_def replicate_8 Let_def)
  from 2 have "st' = ex_after6"
    unfolding st1
    by (simp add: paintsTriple_def ex_mid_def ex_after6_def ThreeColor_def sortedParents_def
          addGate_def Let_def)
  with run 1 2 st1 show ?thesis
    by simp
qed

text \<open>
  C6. On a valid circuit with a well-formed TwoColoring, the constructor stops with the
  message that names a gate exactly when the circuit has a gate with more than two
  operands; the gate named is such a gate. When every gate has at most two operands the
  construction runs to completion.
\<close>

theorem non_binary_gate_is_fatal:
  assumes valid: "validCircuit circuit gate_sorting"
    and wf: "wfTwoColoring (getNumberOfGates circuit) twoColoring"
  shows "((\<exists>g. ThreeColoring circuit gate_sorting twoColoring = Inl (NonBinaryGate g)) \<longleftrightarrow>
          (\<exists>g < getNumberOfGates circuit. 2 < length (getGateOperands circuit g))) \<and>
         (\<forall>g. ThreeColoring circuit gate_sorting twoColoring = Inl (NonBinaryGate g) \<longrightarrow>
            g < getNumberOfGates circuit \<and> 2 < length (getGateOperands circuit g)) \<and>
         ((\<forall>g < getNumberOfGates circuit. length (getGateOperands circuit g) \<le> 2) \<longrightarrow>
          (\<exists>st. ThreeColoring circuit gate_sorting twoColoring = Inr st))"
proof -
  let ?big = "\<lambda>g. 2 < length (getGateOperands circuit g)"
  let ?n = "getNumberOfGates circuit"
  have set: "set (rev gate_sorting) = {..<?n}"
    using validCircuit_set [OF valid] by simp
  show ?thesis
  proof (cases "find ?big (rev gate_sorting)")
    case None
    with ThreeColoring_result [OF valid wf] obtain st
      where "ThreeColoring circuit gate_sorting twoColoring = Inr st"
      by auto
    moreover from None set have "\<forall>g < ?n. \<not> ?big g"
      by (auto simp: find_None_iff)
    ultimately show ?thesis
      by auto
  next
    case (Some g)
    with ThreeColoring_result [OF valid wf]
    have "ThreeColoring circuit gate_sorting twoColoring = Inl (NonBinaryGate g)"
      by simp
    moreover from find_Some_set [OF Some] set have "g < ?n" "?big g"
      by auto
    ultimately show ?thesis
      by auto
  qed
qed

theorem non_binary_gate_is_fatal_witness:
  "validCircuit ex_mux_circuit [3, 2, 1, 0] \<and> wfTwoColoring 4 ex_mux_twoColoring \<and>
   2 < length (getGateOperands ex_mux_circuit 3) \<and>
   ThreeColoring ex_mux_circuit [3, 2, 1, 0] ex_mux_twoColoring = Inl (NonBinaryGate 3)"
proof -
  have n: "getNumberOfGates ex_mux_circuit = 4"
    by (simp add: ex_mux_circuit_def)
  have valid: "validCircuit ex_mux_circuit [3, 2, 1, 0]"
    by (simp add: validCircuit_def ex_mux_circuit_def)
  have wf: "wfTwoColoring (getNumberOfGates ex_mux_circuit) ex_mux_twoColoring"
    by (simp add: wfTwoColoring_def ex_mux_twoColoring_def n)
  have big: "2 < length (getGateOperands ex_mux_circuit 3)"
    by (simp add: ex_mux_circuit_def)
  have only: "g = 3" if "g < 4" and "2 < length (getGateOperands ex_mux_circuit g)" for g
  proof -
    from that(1) have "g = 0 \<or> g = 1 \<or> g = 2 \<or> g = 3"
      by arith
    with that(2) show ?thesis
      by (auto simp: ex_mux_circuit_def)
  qed
  from non_binary_gate_is_fatal [OF valid wf] big
  obtain g where g: "ThreeColoring ex_mux_circuit [3, 2, 1, 0] ex_mux_twoColoring = Inl (NonBinaryGate g)"
    unfolding n by fastforce
  with non_binary_gate_is_fatal [OF valid wf] have "g < 4" "2 < length (getGateOperands ex_mux_circuit g)"
    unfolding n by blast+
  then have "g = 3"
    by (rule only)
  with g valid wf big show ?thesis
    by (simp add: n)
qed

text \<open>
  C9. On a valid circuit with a well-formed TwoColoring no range-checked access of the
  constructor fails. When every gate has at most two operands the constructor returns,
  and in its result \<open>gateColors\<close> has one entry per gate and every ColorId in it is
  below the size of \<open>colors\<close>.
\<close>

theorem range_checked_accesses_succeed:
  assumes valid: "validCircuit circuit gate_sorting"
    and wf: "wfTwoColoring (getNumberOfGates circuit) twoColoring"
  shows "(\<forall>w. ThreeColoring circuit gate_sorting twoColoring \<noteq> Inl (OutOfRange w)) \<and>
         ((\<forall>g < getNumberOfGates circuit. length (getGateOperands circuit g) \<le> 2) \<longrightarrow>
          (\<exists>st. ThreeColoring circuit gate_sorting twoColoring = Inr st \<and>
                length (gateColors st) = getNumberOfGates circuit \<and>
                next_color_id st = length (colors st) \<and>
                (\<forall>g < getNumberOfGates circuit. \<forall>c \<in> set (gateColors st ! g). c < length (colors st))))"
proof -
  let ?big = "\<lambda>g. 2 < length (getGateOperands circuit g)"
  let ?n = "getNumberOfGates circuit"
  have set: "set (rev gate_sorting) = {..<?n}"
    using validCircuit_set [OF valid] by simp
  show ?thesis
  proof (cases "find ?big (rev gate_sorting)")
    case None
    with ThreeColoring_result [OF valid wf] obtain st
      where run: "ThreeColoring circuit gate_sorting twoColoring = Inr st" and rdy: "ready ?n st"
      by auto
    from rdy have "length (gateColors st) = ?n" "next_color_id st = length (colors st)"
      "\<forall>g < ?n. \<forall>c \<in> set (gateColors st ! g). c < length (colors st)"
      using ready_ids [OF rdy] by (auto simp: ready_def colorsInv_def)
    with run show ?thesis
      by auto
  next
    case (Some g)
    with ThreeColoring_result [OF valid wf]
    have "ThreeColoring circuit gate_sorting twoColoring = Inl (NonBinaryGate g)"
      by simp
    moreover from find_Some_set [OF Some] set have "g < ?n" "?big g"
      by auto
    ultimately show ?thesis
      by auto
  qed
qed

theorem range_checked_accesses_succeed_witness:
  "validCircuit ex_circuit ex_sorting \<and> wfTwoColoring 8 ex_twoColoring \<and>
   ThreeColoring ex_circuit ex_sorting ex_twoColoring = Inr ex_result \<and>
   length (gateColors ex_result) = 8 \<and> gateColors ex_result ! 7 = [0, 1] \<and>
   length (colors ex_result) = 2"
proof -
  have n: "getNumberOfGates ex_circuit = 8"
    by (simp add: ex_circuit_def)
  have valid: "validCircuit ex_circuit ex_sorting"
    by (simp add: validCircuit_def ex_circuit_def ex_sorting_def)
  have wf: "wfTwoColoring (getNumberOfGates ex_circuit) ex_twoColoring"
    by (simp add: wfTwoColoring_def ex_twoColoring_def n)
  from range_checked_accesses_succeed [OF valid wf] ex_run valid wf show ?thesis
    by (simp add: n ex_result_def)
qed

text \<open>
  C2, as the spec states it, fails: \<open>read_db\<close> does not sort the vector of truth-table
  integers. A record that lists the tables 14 and 8 is stored under the key \<open>[14, 8]\<close>,
  and the sorted vector \<open>[8, 14]\<close> is not a key of the map.
\<close>

theorem key_sorted_counterexample:
  "read_db basicGateType (Some ex_db_tokens) = Inr ex_db \<and>
   subcircuit_pattern_to_index ex_db [14, 8] = Some 0 \<and>
   sort [14, 8 :: int] = [8, 14] \<and>
   subcircuit_pattern_to_index ex_db [8, 14] = None"
  by (simp add: ex_db_run) (simp add: ex_db_def)

text \<open>
  C2, amended. The key under which \<open>read_db\<close> stores a record is the record's vector of
  truth-table integers exactly as read, in file order: for a record that starts with the
  numerals \<open>inputs_number\<close> and \<open>outputs_number\<close> followed by \<open>outputs_number\<close>
  numerals, the loop body sets the map at the vector of these numerals' values, in their
  order, to the record's index, and changes the map nowhere else.
\<close>

theorem key_is_vector_in_file_order:
  assumes nt: "size_t_of_token nt = Good inputs_number"
    and mt: "size_t_of_token mt = Good (length pats)"
    and pats: "list_all (\<lambda>p. is_good (int32_of_token p)) pats"
    and run: "read_records conv (Some (nt # mt # pats @ rest)) db idx = Inr db_final"
  shows "\<exists>s' db'.
     read_record conv inputs_number (Some (mt # pats @ rest)) db idx = Inr (s', db') \<and>
     subcircuit_pattern_to_index db' =
       (subcircuit_pattern_to_index db)(map (\<lambda>p. extracted_value (int32_of_token p)) pats \<mapsto> idx) \<and>
     read_records conv s' db' (idx + 1) = Inr db_final \<and>
     record_keys conv (Some (nt # mt # pats @ rest)) =
       map (\<lambda>p. extracted_value (int32_of_token p)) pats # record_keys conv s'"
proof -
  let ?s = "Some (nt # mt # pats @ rest)"
  let ?body = "Some (mt # pats @ rest)"
  let ?key = "map (\<lambda>p. extracted_value (int32_of_token p)) pats"
  have hdr: "read_size_t 0 ?s = (inputs_number, ?body)"
    using nt by (simp add: read_size_t_def)
  have key: "pattern_key ?body = ?key"
    using mt read_vector_good [OF pats, of 0 rest]
    by (simp add: pattern_key_def read_size_t_def read_int32_def)
  from run hdr obtain nxt where rec: "read_record conv inputs_number ?body db idx = Inr nxt"
    and rest: "read_records conv (fst nxt) (snd nxt) (idx + 1) = Inr db_final"
    by (auto simp: read_records.simps [of conv ?s db idx] split: sum.splits)
  from rec have rec': "read_record conv inputs_number ?body db idx = Inr (fst nxt, snd nxt)"
    by simp
  from read_record_independent [OF rec', of empty_db 0] obtain db0
    where "read_record conv inputs_number ?body empty_db 0 = Inr (fst nxt, db0)"
    by blast
  with hdr key have "record_keys conv ?s = ?key # record_keys conv (fst nxt)"
    by (simp add: record_keys.simps [of conv ?s])
  with rec' rest read_record_key [OF rec'] key show ?thesis
    by (intro exI [of _ "fst nxt"] exI [of _ "snd nxt"]) simp
qed

theorem key_is_vector_in_file_order_witness:
  "read_record basicGateType 2 (Some (tl ex_db_tokens)) empty_db 0 = Inr (Some [], ex_db) \<and>
   subcircuit_pattern_to_index ex_db = [[14, 8] \<mapsto> 0]"
proof -
  have run: "read_records basicGateType (Some (''2'' # ''2'' # [''14'', ''8''] @
      [''2'', ''3'', ''OR'', ''0'', ''1'', ''AND'', ''0'', ''1''])) empty_db 0 = Inr ex_db"
    using ex_db_run by (simp add: read_db_def ex_db_tokens_def)
  have "\<exists>s' db'. read_record basicGateType 2 (Some (''2'' # [''14'', ''8''] @
      [''2'', ''3'', ''OR'', ''0'', ''1'', ''AND'', ''0'', ''1''])) empty_db 0 = Inr (s', db') \<and>
     subcircuit_pattern_to_index db' =
       (subcircuit_pattern_to_index empty_db)
         (map (\<lambda>p. extracted_value (int32_of_token p)) [''14'', ''8''] \<mapsto> 0) \<and>
     read_records basicGateType s' db' (0 + 1) = Inr ex_db \<and>
     record_keys basicGateType (Some (''2'' # ''2'' # [''14'', ''8''] @
      [''2'', ''3'', ''OR'', ''0'', ''1'', ''AND'', ''0'', ''1''])) =
       map (\<lambda>p. extracted_value (int32_of_token p)) [''14'', ''8''] # record_keys basicGateType s'"
    by (rule key_is_vector_in_file_order [OF _ _ _ run])
       (simp_all add: size_t_of_token_def int32_of_token_def is_numeral_def nat_of_numeral_def
          digit_of_char_def SIZE_MAX_def is_good_def)
  with ex_db_record show ?thesis
    by (simp add: ex_db_tokens_def ex_db_def)
qed

text \<open>
  C3, as the spec states it, fails: in a record with two inputs whose only output is
  gate 2, and whose gate 2 has gate 3 as operand, two gate descriptions are parsed, not
  \<open>2 - 2 + 1 = 1\<close>.
\<close>

theorem gate_count_counterexample:
  "read_db basicGateType (Some ex_forward_tokens) = Inr ex_forward_db \<and>
   size_t_of_token (hd ex_forward_tokens) = Good 2 \<and>
   length (last (gates_operands ex_forward_db)) \<noteq>
     Max (set (last (subcircuit_outputs ex_forward_db))) - 2 + 1"
  by (simp add: ex_forward_run)
     (simp add: ex_forward_db_def ex_forward_tokens_def size_t_of_token_def is_numeral_def
        nat_of_numeral_def digit_of_char_def SIZE_MAX_def)

text \<open>
  C3, amended. \<open>read_db\<close> reads gate descriptions for the ids \<open>inputs_number\<close> through
  \<open>M\<close>, where \<open>M\<close> is the largest of 0, the record's output ids and the operand ids of
  the gate descriptions read: their number is \<open>M + 1 - inputs_number\<close>, and none when
  \<open>M < inputs_number\<close>. It is \<open>max_output_id + 1 - inputs_number\<close> when no operand id
  exceeds the largest output id.
\<close>

theorem gate_descriptions_parsed:
  assumes "read_record conv inputs_number s db idx = Inr (s', db')"
  shows "length (last (gates_operands db')) =
           Suc (Max (set (0 # last (subcircuit_outputs db') @ concat (last (gates_operands db')))))
             - inputs_number \<and>
         length (last (gates_operations db')) = length (last (gates_operands db')) \<and>
         ((\<forall>a \<in> set (concat (last (gates_operands db'))). a \<le> Max (set (0 # last (subcircuit_outputs db')))) \<longrightarrow>
          length (last (gates_operands db')) =
            Suc (Max (set (0 # last (subcircuit_outputs db')))) - inputs_number)"
proof -
  let ?ra = "read_size_t 0 s"
  let ?rb = "read_vector read_int32 0 (fst ?ra) (snd ?ra)"
  let ?rc = "read_vector read_size_t 0 (fst ?ra) (snd ?rb)"
  let ?outs = "fst ?rc"
  from assms obtain acc' where
    gates: "parse_gates conv (snd ?rc) inputs_number (fold max ?outs 0) initial_gates = Inr (s', acc')"
    and outs: "last (subcircuit_outputs db') = ?outs"
    and opnds: "last (gates_operands db') = operands_of acc'"
    and ops: "last (gates_operations db') = operations acc'"
    by (auto simp: read_record_def Let_def split: sum.splits)
  from parse_gates_count [OF gates] have
    count: "length (operands_of acc') = Suc (fold max (concat (operands_of acc')) (fold max ?outs 0)) - inputs_number"
    and same: "length (operations acc') = length (operands_of acc')"
    by (auto simp: initial_gates_def)
  have M: "fold max (concat (operands_of acc')) (fold max ?outs 0) =
      Max (set (0 # ?outs @ concat (operands_of acc')))"
    by (simp add: fold_max_Max [symmetric] del: set_simps set_append set_concat)
  have "Max (set (0 # ?outs @ concat (operands_of acc'))) = Max (set (0 # ?outs))"
    if "\<forall>a \<in> set (concat (operands_of acc')). a \<le> Max (set (0 # ?outs))"
  proof (rule antisym)
    show "Max (set (0 # ?outs @ concat (operands_of acc'))) \<le> Max (set (0 # ?outs))"
      using that by (subst Max_le_iff) (auto simp del: set_concat)
    show "Max (set (0 # ?outs)) \<le> Max (set (0 # ?outs @ concat (operands_of acc')))"
      by (rule Max_mono) auto
  qed
  with count same M outs opnds ops show ?thesis
    by simp
qed

theorem gate_descriptions_parsed_witness:
  "read_record basicGateType 2 (Some (tl ex_forward_tokens)) empty_db 0 = Inr (Some [], ex_forward_db) \<and>
   length (last (gates_operands ex_forward_db)) = 2 \<and>
   Max (set (0 # last (subcircuit_outputs ex_forward_db) @ concat (last (gates_operands ex_forward_db)))) = 3"
  using gate_descriptions_parsed [OF ex_forward_record] ex_forward_record
  by (simp add: ex_forward_db_def)

text \<open>
  C7. When two records of a file have the same key and no record after the later one has
  it, the loaded map sends the key to the index of the later record: the earlier entry is
  overwritten.
\<close>

theorem later_duplicate_overwrites:
  assumes run: "read_db conv database = Inr db"
    and order: "i < j" "j < length (record_keys conv database)"
    and dup: "record_keys conv database ! i = record_keys conv database ! j"
    and last: "record_keys conv database ! j \<notin> set (drop (Suc j) (record_keys conv database))"
  shows "subcircuit_pattern_to_index db (record_keys conv database ! j) = Some (int j) \<and>
         subcircuit_pattern_to_index db (record_keys conv database ! i) \<noteq> Some (int i)"
proof -
  from run have "read_records conv database empty_db 0 = Inr db"
    by (simp add: read_db_def)
  from read_records_keys [OF this, of "record_keys conv database ! j"] order(2) last
  have "subcircuit_pattern_to_index db (record_keys conv database ! j) = Some (int j)"
    by simp
  with dup order(1) show ?thesis
    by simp
qed

theorem later_duplicate_overwrites_witness:
  "read_db basicGateType (Some ex_dup_tokens) = Inr ex_dup_db \<and>
   record_keys basicGateType (Some ex_dup_tokens) = [[8], [8]] \<and>
   subcircuit_pattern_to_index ex_dup_db [8] = Some 1"
  using later_duplicate_overwrites [OF ex_dup_run, of 0 1] ex_dup_run
  by (simp add: ex_dup_keys)


end
